theory Spec2Isabelle
  imports Main "HOL-Library.Word"
begin

section \<open>The buffer cache of kernel/bio.c\<close>

text \<open>
  The cache is the global \<open>bcache\<close>: an array \<open>buf[NBUF]\<close> of buffers, one sentinel
  \<open>heads[i]\<close> per hash bucket and one sentinel \<open>freelist[c]\<close> per CPU. All of them are
  \<open>struct buf\<close> and are linked through their \<open>prev\<close>/\<open>next\<close> pointers into circular
  doubly linked lists. The model keeps the pointers: a pointer is the address of one of
  these objects, the memory maps every address to the \<open>struct buf\<close> stored there, and
  every assignment of the C code is one update of that memory.

  \<open>NBUF\<close> and \<open>NCPU\<close> come from param.h, which is not part of the sources at hand; they
  are parameters of the functions that use them. \<open>uint\<close> (types.h) is the 32-bit
  unsigned integer of the RISC-V port; arithmetic on it wraps around.
\<close>

subsection \<open>Data\<close>

type_synonym uint = "32 word"
type_synonym uchar = "8 word"

definition HASHSIZE :: nat where
  "HASHSIZE = 13"

text \<open>Addresses: \<open>&bcache.buf[i]\<close>, \<open>&bcache.heads[i]\<close>, \<open>&bcache.freelist[i]\<close>, and the
  null pointer of zero-initialised memory.\<close>

datatype ptr = Null | Buf nat | Head nat | Freelist nat

text \<open>Modelled from the spec: the blocking content lock (sleeplock.h and sleeplock.c are
  absent). It is either free, or held by the process whose id it records.\<close>

record sleeplock =
  locked :: bool
  pid :: nat

text \<open>Modelled from the spec: \<open>struct buf\<close> (buf.h is absent), with the fields that
  bio.c reads and writes. \<open>refcnt\<close>, \<open>dev\<close>, \<open>blockno\<close> and \<open>timestamp\<close> are \<open>uint\<close>,
  \<open>valid\<close> is an \<open>int\<close> used as a flag, \<open>data\<close> is the payload.\<close>

record buf =
  valid :: int
  dev :: uint
  blockno :: uint
  lock :: sleeplock
  refcnt :: uint
  prev :: ptr
  "next" :: ptr
  data :: "uchar list"
  timestamp :: uint

text \<open>The spinlocks \<open>bcache.headlk[i]\<close> and \<open>bcache.freelk[c]\<close>.\<close>

datatype spinlock = Headlk nat | Freelk nat

datatype field = F_valid | F_dev | F_blockno | F_refcnt | F_prev | F_next | F_timestamp

text \<open>
  The order in which an operation takes and releases locks, stores to a buffer and
  calls the disk driver is not visible in the memory it leaves behind. The machine
  therefore carries a trace, to which every such action appends one event.
\<close>

datatype event =
    Initlock spinlock
  | Acquire spinlock
  | Release spinlock
  | Push_off
  | Pop_off
  | Initsleeplock ptr
  | Acquiresleep ptr nat
  | Releasesleep ptr
  | Store ptr field
  | Disk_rw ptr bool

record machine =
  mem :: "ptr \<Rightarrow> buf"
  disk :: "uint \<times> uint \<Rightarrow> uchar list"
  trace :: "event list"

text \<open>
  \<open>panic\<close> halts the kernel. \<open>acquiresleep\<close> on a lock that is held suspends the
  caller until the holder releases it; in a run where operations follow one another
  nobody can, so the call does not return: \<open>Sleep\<close> carries the machine as it is when
  the caller is suspended.
\<close>

datatype fault = Panic string | Sleep machine

subsection \<open>Stores and the collaborators of bio.c\<close>

definition emit :: "event \<Rightarrow> machine \<Rightarrow> machine" where
  "emit e s = s\<lparr>trace := trace s @ [e]\<rparr>"

definition store_next :: "ptr \<Rightarrow> ptr \<Rightarrow> machine \<Rightarrow> machine" where
  "store_next p v s = emit (Store p F_next) (s\<lparr>mem := (mem s)(p := (mem s p)\<lparr>next := v\<rparr>)\<rparr>)"

definition store_prev :: "ptr \<Rightarrow> ptr \<Rightarrow> machine \<Rightarrow> machine" where
  "store_prev p v s = emit (Store p F_prev) (s\<lparr>mem := (mem s)(p := (mem s p)\<lparr>prev := v\<rparr>)\<rparr>)"

definition store_refcnt :: "ptr \<Rightarrow> uint \<Rightarrow> machine \<Rightarrow> machine" where
  "store_refcnt p v s =
     emit (Store p F_refcnt) (s\<lparr>mem := (mem s)(p := (mem s p)\<lparr>refcnt := v\<rparr>)\<rparr>)"

definition store_dev :: "ptr \<Rightarrow> uint \<Rightarrow> machine \<Rightarrow> machine" where
  "store_dev p v s = emit (Store p F_dev) (s\<lparr>mem := (mem s)(p := (mem s p)\<lparr>dev := v\<rparr>)\<rparr>)"

definition store_blockno :: "ptr \<Rightarrow> uint \<Rightarrow> machine \<Rightarrow> machine" where
  "store_blockno p v s =
     emit (Store p F_blockno) (s\<lparr>mem := (mem s)(p := (mem s p)\<lparr>blockno := v\<rparr>)\<rparr>)"

definition store_valid :: "ptr \<Rightarrow> int \<Rightarrow> machine \<Rightarrow> machine" where
  "store_valid p v s =
     emit (Store p F_valid) (s\<lparr>mem := (mem s)(p := (mem s p)\<lparr>valid := v\<rparr>)\<rparr>)"

definition store_timestamp :: "ptr \<Rightarrow> uint \<Rightarrow> machine \<Rightarrow> machine" where
  "store_timestamp p v s =
     emit (Store p F_timestamp) (s\<lparr>mem := (mem s)(p := (mem s p)\<lparr>timestamp := v\<rparr>)\<rparr>)"

text \<open>Modelled from the spec: the spinlock primitives and the pinning of execution to
  one CPU (spinlock.c is absent). Operations follow one another, so a spinlock is free
  whenever it is taken; taking and releasing it leaves only its event.\<close>

definition initlock :: "spinlock \<Rightarrow> machine \<Rightarrow> machine" where
  "initlock lk s = emit (Initlock lk) s"

definition acquire :: "spinlock \<Rightarrow> machine \<Rightarrow> machine" where
  "acquire lk s = emit (Acquire lk) s"

definition release :: "spinlock \<Rightarrow> machine \<Rightarrow> machine" where
  "release lk s = emit (Release lk) s"

definition push_off :: "machine \<Rightarrow> machine" where
  "push_off s = emit Push_off s"

definition pop_off :: "machine \<Rightarrow> machine" where
  "pop_off s = emit Pop_off s"

text \<open>Modelled from the spec: the blocking lock primitive (\<open>acquire_blocking\<close>,
  \<open>release_blocking\<close>, \<open>is_held_by_caller\<close>; sleeplock.c is absent). \<open>pd\<close> is the id of
  the calling process.\<close>

definition initsleeplock :: "ptr \<Rightarrow> machine \<Rightarrow> machine" where
  "initsleeplock p s =
     emit (Initsleeplock p)
       (s\<lparr>mem := (mem s)(p := (mem s p)\<lparr>lock := \<lparr>locked = False, pid = 0\<rparr>\<rparr>)\<rparr>)"

definition holdingsleep :: "nat \<Rightarrow> ptr \<Rightarrow> machine \<Rightarrow> bool" where
  "holdingsleep pd p s \<longleftrightarrow> locked (lock (mem s p)) \<and> pid (lock (mem s p)) = pd"

definition acquiresleep :: "nat \<Rightarrow> ptr \<Rightarrow> machine \<Rightarrow> fault + machine" where
  "acquiresleep pd p s =
     (if locked (lock (mem s p)) then Inl (Sleep s)
      else Inr (emit (Acquiresleep p pd)
             (s\<lparr>mem := (mem s)(p := (mem s p)\<lparr>lock := \<lparr>locked = True, pid = pd\<rparr>\<rparr>)\<rparr>)))"

definition releasesleep :: "ptr \<Rightarrow> machine \<Rightarrow> machine" where
  "releasesleep p s =
     emit (Releasesleep p)
       (s\<lparr>mem := (mem s)(p := (mem s p)\<lparr>lock := \<lparr>locked = False, pid = 0\<rparr>\<rparr>)\<rparr>)"

text \<open>Modelled from the spec: the device collaborator \<open>device_transfer(slot, is_write)\<close>
  (virtio_disk.c is absent): a synchronous transfer of the payload to (\<open>w\<close>) or from
  the block (\<open>dev\<close>, \<open>blockno\<close>) of the medium.\<close>

definition virtio_disk_rw :: "ptr \<Rightarrow> bool \<Rightarrow> machine \<Rightarrow> machine" where
  "virtio_disk_rw b w s =
     emit (Disk_rw b w)
       (if w then s\<lparr>disk := (disk s)((dev (mem s b), blockno (mem s b)) := data (mem s b))\<rparr>
        else s\<lparr>mem := (mem s)(b := (mem s b)\<lparr>data := disk s (dev (mem s b), blockno (mem s b))\<rparr>)\<rparr>)"

subsection \<open>binit\<close>

definition binit_head :: "nat \<Rightarrow> machine \<Rightarrow> machine" where
  "binit_head i s =
     (let s = initlock (Headlk i) s;
          s = store_prev (Head i) (Head i) s;
          s = store_next (Head i) (Head i) s
      in s)"

definition binit_freelist :: "nat \<Rightarrow> machine \<Rightarrow> machine" where
  "binit_freelist i s =
     (let s = initlock (Freelk i) s;
          s = store_prev (Freelist i) (Freelist i) s;
          s = store_next (Freelist i) (Freelist i) s
      in s)"

definition binit_buf :: "uint \<Rightarrow> ptr \<Rightarrow> machine \<Rightarrow> machine" where
  "binit_buf ticks b s =
     (let s = store_next b (next (mem s (Freelist 0))) s;
          s = store_prev b (Freelist 0) s;
          s = initsleeplock b s;
          s = store_prev (next (mem s (Freelist 0))) b s;
          s = store_next (Freelist 0) b s;
          s = store_timestamp b ticks s
      in s)"

definition binit :: "nat \<Rightarrow> nat \<Rightarrow> uint \<Rightarrow> machine \<Rightarrow> machine" where
  "binit NBUF NCPU ticks s =
     (let s = fold binit_head [0..<HASHSIZE] s;
          s = fold binit_freelist [0..<NCPU] s;
          s = fold (binit_buf ticks) (map Buf [0..<NBUF]) s
      in s)"

subsection \<open>hash and bget\<close>

definition hash :: "uint \<Rightarrow> uint \<Rightarrow> nat" where
  "hash dv bn = unat ((1234 * dv + 5678 * bn + 90) mod 13)"

text \<open>The scan of a bucket (lines 78 to 86): \<open>Some (Some b)\<close> when \<open>b\<close> is the first
  buffer of the chain with the identity looked for, \<open>Some None\<close> when the chain comes
  back to the sentinel \<open>h\<close>, \<open>None\<close> when the loop does not end.\<close>

partial_function (option) scan ::
  "(ptr \<Rightarrow> buf) \<Rightarrow> ptr \<Rightarrow> uint \<Rightarrow> uint \<Rightarrow> ptr \<Rightarrow> ptr option option" where
  "scan m h dv bn b =
     (if b = h then Some None
      else if dev (m b) = dv \<and> blockno (m b) = bn then Some (Some b)
      else scan m h dv bn (next (m b)))"

declare scan.simps [code]

text \<open>The body of the two recycling loops (lines 94 to 109 and 115 to 130), which
  differ only in the free list they take the buffer from: \<open>c\<close> is \<open>cpu\<close> in the
  first and \<open>nc\<close> in the second. The body returns or panics in its first iteration.\<close>

definition recycle ::
  "nat \<Rightarrow> nat \<Rightarrow> nat \<Rightarrow> uint \<Rightarrow> uint \<Rightarrow> ptr \<Rightarrow> machine \<Rightarrow> fault + ptr \<times> machine" where
  "recycle pd ident c dv bn b s =
     (if refcnt (mem s b) \<noteq> 0 then Inl (Panic ''bget: freelist is not free!'')
      else
        let s = store_next (prev (mem s b)) (next (mem s b)) s;
            s = store_prev (next (mem s b)) (prev (mem s b)) s;
            s = store_next b (next (mem s (Head ident))) s;
            s = store_prev b (Head ident) s;
            s = store_prev (next (mem s (Head ident))) b s;
            s = store_next (Head ident) b s;
            s = store_dev b dv s;
            s = store_blockno b bn s;
            s = store_valid b 0 s;
            s = store_refcnt b 1 s;
            s = release (Headlk ident) s;
            s = release (Freelk c) s
        in case acquiresleep pd b s of
             Inl f \<Rightarrow> Inl f
           | Inr s \<Rightarrow> Inr (b, pop_off s))"

text \<open>The loop over the other CPUs' free lists (lines 112 to 135), over the indices
  still to visit.\<close>

fun steal ::
  "nat \<Rightarrow> nat \<Rightarrow> nat \<Rightarrow> uint \<Rightarrow> uint \<Rightarrow> nat list \<Rightarrow> machine \<Rightarrow> fault + ptr \<times> machine" where
  "steal pd ident cpu dv bn [] s =
     (let s = pop_off s in Inl (Panic ''bget: no buffers''))"
| "steal pd ident cpu dv bn (nc # ncs) s =
     (if nc \<noteq> cpu then
        let s = acquire (Freelk nc) s;
            b = prev (mem s (Freelist nc))
        in if b \<noteq> Freelist nc then recycle pd ident nc dv bn b s
           else steal pd ident cpu dv bn ncs (release (Freelk nc) s)
      else steal pd ident cpu dv bn ncs s)"

definition bget ::
  "nat \<Rightarrow> nat \<Rightarrow> nat \<Rightarrow> uint \<Rightarrow> uint \<Rightarrow> uint \<Rightarrow> machine \<Rightarrow> (fault + ptr \<times> machine) option" where
  "bget NCPU pd cpu ticks dv bn s =
     (let ident = hash dv bn;
          s = acquire (Headlk ident) s
      in case scan (mem s) (Head ident) dv bn (next (mem s (Head ident))) of
           None \<Rightarrow> None
         | Some (Some b) \<Rightarrow>
             Some (let s = store_refcnt b (refcnt (mem s b) + 1) s;
                       s = store_timestamp b ticks s;
                       s = release (Headlk ident) s
                   in case acquiresleep pd b s of
                        Inl f \<Rightarrow> Inl f
                      | Inr s \<Rightarrow> Inr (b, s))
         | Some None \<Rightarrow>
             Some (let s = push_off s;
                       s = acquire (Freelk cpu) s;
                       b = prev (mem s (Freelist cpu))
                   in if b \<noteq> Freelist cpu then recycle pd ident cpu dv bn b s
                      else steal pd ident cpu dv bn [0..<NCPU] (release (Freelk cpu) s)))"

subsection \<open>bread, bwrite, brelse, bpin, bunpin\<close>

definition bread ::
  "nat \<Rightarrow> nat \<Rightarrow> nat \<Rightarrow> uint \<Rightarrow> uint \<Rightarrow> uint \<Rightarrow> machine \<Rightarrow> (fault + ptr \<times> machine) option" where
  "bread NCPU pd cpu ticks dv bn s =
     (case bget NCPU pd cpu ticks dv bn s of
        None \<Rightarrow> None
      | Some (Inl f) \<Rightarrow> Some (Inl f)
      | Some (Inr (b, s)) \<Rightarrow>
          Some (Inr (b, if valid (mem s b) = 0
                        then (let s = virtio_disk_rw b False s;
                                  s = store_valid b 1 s
                              in s)
                        else s)))"

definition bwrite :: "nat \<Rightarrow> ptr \<Rightarrow> machine \<Rightarrow> fault + machine" where
  "bwrite pd b s =
     (if \<not> holdingsleep pd b s then Inl (Panic ''bwrite'')
      else Inr (virtio_disk_rw b True s))"

definition brelse :: "nat \<Rightarrow> nat \<Rightarrow> ptr \<Rightarrow> machine \<Rightarrow> fault + machine" where
  "brelse pd cpu b s =
     (if \<not> holdingsleep pd b s then Inl (Panic ''brelse'')
      else
        let s = releasesleep b s;
            ident = hash (dev (mem s b)) (blockno (mem s b));
            s = acquire (Headlk ident) s;
            s = store_refcnt b (refcnt (mem s b) - 1) s;
            s = (if refcnt (mem s b) = 0 then
                   let s = push_off s;
                       s = acquire (Freelk cpu) s;
                       s = store_prev (next (mem s b)) (prev (mem s b)) s;
                       s = store_next (prev (mem s b)) (next (mem s b)) s;
                       s = store_next b (next (mem s (Freelist cpu))) s;
                       s = store_prev b (Freelist cpu) s;
                       s = store_prev (next (mem s (Freelist cpu))) b s;
                       s = store_next (Freelist cpu) b s;
                       s = release (Freelk cpu) s;
                       s = pop_off s
                   in s
                 else s)
        in Inr (release (Headlk ident) s))"

definition bpin :: "ptr \<Rightarrow> machine \<Rightarrow> machine" where
  "bpin b s =
     (let ident = hash (dev (mem s b)) (blockno (mem s b));
          s = acquire (Headlk ident) s;
          s = store_refcnt b (refcnt (mem s b) + 1) s
      in release (Headlk ident) s)"

definition bunpin :: "ptr \<Rightarrow> machine \<Rightarrow> machine" where
  "bunpin b s =
     (let ident = hash (dev (mem s b)) (blockno (mem s b));
          s = acquire (Headlk ident) s;
          s = store_refcnt b (refcnt (mem s b) - 1) s
      in release (Headlk ident) s)"

subsection \<open>Lists in memory\<close>

text \<open>The successor and predecessor functions that a memory defines.\<close>

definition nxt :: "(ptr \<Rightarrow> buf) \<Rightarrow> ptr \<Rightarrow> ptr" where
  "nxt m p = next (m p)"

definition prv :: "(ptr \<Rightarrow> buf) \<Rightarrow> ptr \<Rightarrow> ptr" where
  "prv m p = prev (m p)"

text \<open>The nodes met from \<open>p\<close> along \<open>f\<close> before the sentinel \<open>h\<close> is reached; \<open>None\<close>
  when \<open>h\<close> is never reached.\<close>

partial_function (option) walk :: "(ptr \<Rightarrow> ptr) \<Rightarrow> ptr \<Rightarrow> ptr \<Rightarrow> ptr list option" where
  "walk f h p = (if p = h then Some [] else Option.bind (walk f h (f p)) (\<lambda>xs. Some (p # xs)))"

declare walk.simps [code]

text \<open>The content of the list with sentinel \<open>h\<close>, read along \<open>next\<close> (most recent
  first) and along \<open>prev\<close>.\<close>

definition members :: "(ptr \<Rightarrow> buf) \<Rightarrow> ptr \<Rightarrow> ptr list option" where
  "members m h = walk (nxt m) h (nxt m h)"

definition members_back :: "(ptr \<Rightarrow> buf) \<Rightarrow> ptr \<Rightarrow> ptr list option" where
  "members_back m h = walk (prv m) h (prv m h)"

text \<open>The sentinels: the bucket lists, then the free lists.\<close>

definition sentinels :: "nat \<Rightarrow> ptr list" where
  "sentinels NCPU = map Head [0..<HASHSIZE] @ map Freelist [0..<NCPU]"

subsection \<open>Runs\<close>

text \<open>Memory as the kernel finds it at boot: \<open>bcache\<close> is a global without initialiser,
  so all its bytes are zero.\<close>

definition zero_buf :: buf where
  "zero_buf = \<lparr>valid = 0, dev = 0, blockno = 0, lock = \<lparr>locked = False, pid = 0\<rparr>,
     refcnt = 0, prev = Null, next = Null, data = [], timestamp = 0\<rparr>"

definition boot :: "(uint \<times> uint \<Rightarrow> uchar list) \<Rightarrow> machine" where
  "boot d = \<lparr>mem = (\<lambda>p. zero_buf), disk = d, trace = []\<rparr>"

definition blank :: "uint \<times> uint \<Rightarrow> uchar list" where
  "blank = (\<lambda>k. [])"

text \<open>A call of the interface: \<open>Bread pd cpu ticks dev blockno\<close> is \<open>bread(dev, blockno)\<close>
  by process \<open>pd\<close> on CPU \<open>cpu\<close> at time \<open>ticks\<close>; a buffer argument is given by its
  index in \<open>bcache.buf\<close>. \<open>exec\<close> is the machine after the call, when the call returns.\<close>

datatype call =
    Binit uint
  | Bread nat nat uint uint uint
  | Bwrite nat nat
  | Brelse nat nat nat
  | Bpin nat
  | Bunpin nat

fun exec :: "nat \<Rightarrow> nat \<Rightarrow> call \<Rightarrow> machine \<Rightarrow> machine option" where
  "exec NBUF NCPU (Binit ticks) s =
     (if 0 < NCPU then Some (binit NBUF NCPU ticks s) else None)"
| "exec NBUF NCPU (Bread pd cpu ticks dv bn) s =
     (if cpu < NCPU then
        (case bread NCPU pd cpu ticks dv bn s of
           Some (Inr (b, s')) \<Rightarrow> Some s'
         | _ \<Rightarrow> None)
      else None)"
| "exec NBUF NCPU (Bwrite pd i) s =
     (if i < NBUF then
        (case bwrite pd (Buf i) s of Inr s' \<Rightarrow> Some s' | Inl f \<Rightarrow> None)
      else None)"
| "exec NBUF NCPU (Brelse pd cpu i) s =
     (if i < NBUF \<and> cpu < NCPU then
        (case brelse pd cpu (Buf i) s of Inr s' \<Rightarrow> Some s' | Inl f \<Rightarrow> None)
      else None)"
| "exec NBUF NCPU (Bpin i) s = (if i < NBUF then Some (bpin (Buf i) s) else None)"
| "exec NBUF NCPU (Bunpin i) s = (if i < NBUF then Some (bunpin (Buf i) s) else None)"

fun run :: "nat \<Rightarrow> nat \<Rightarrow> call list \<Rightarrow> machine \<Rightarrow> machine option" where
  "run NBUF NCPU [] s = Some s"
| "run NBUF NCPU (c # cs) s =
     (case exec NBUF NCPU c s of None \<Rightarrow> None | Some s' \<Rightarrow> run NBUF NCPU cs s')"

subsection \<open>Well-formed lists\<close>

text \<open>\<open>path f p xs q\<close>: following \<open>f\<close> from \<open>p\<close> visits the nodes \<open>xs\<close> in this order
  and then \<open>q\<close>.\<close>

fun path :: "(ptr \<Rightarrow> ptr) \<Rightarrow> ptr \<Rightarrow> ptr list \<Rightarrow> ptr \<Rightarrow> bool" where
  "path f p [] q \<longleftrightarrow> f p = q"
| "path f p (x # xs) q \<longleftrightarrow> f p = x \<and> path f x xs q"

text \<open>A circular doubly linked list with sentinel \<open>h\<close> and content \<open>xs\<close>: the successors
  lead from \<open>h\<close> through \<open>xs\<close> back to \<open>h\<close>, the predecessors lead back the same way, and
  no node occurs twice.\<close>

definition dll :: "(ptr \<Rightarrow> ptr) \<Rightarrow> (ptr \<Rightarrow> ptr) \<Rightarrow> ptr \<Rightarrow> ptr list \<Rightarrow> bool" where
  "dll nx pv h xs \<longleftrightarrow> path nx h xs h \<and> path pv h (rev xs) h \<and> distinct (h # xs)"

text \<open>\<open>linked NCPU X nx pv L\<close>: every sentinel \<open>h\<close> heads a well-formed list with content
  \<open>L h\<close>, no node is in two lists, and the nodes in the lists are those of \<open>X\<close>, none of which
  is a sentinel.\<close>

definition linked ::
  "nat \<Rightarrow> ptr set \<Rightarrow> (ptr \<Rightarrow> ptr) \<Rightarrow> (ptr \<Rightarrow> ptr) \<Rightarrow> (ptr \<Rightarrow> ptr list) \<Rightarrow> bool" where
  "linked NCPU X nx pv L \<longleftrightarrow>
     (\<forall>h \<in> set (sentinels NCPU). dll nx pv h (L h)) \<and>
     (\<forall>h \<in> set (sentinels NCPU). \<forall>h' \<in> set (sentinels NCPU).
        h \<noteq> h' \<longrightarrow> set (L h) \<inter> set (L h') = {}) \<and>
     (\<Union>h \<in> set (sentinels NCPU). set (L h)) = X \<and>
     X \<inter> set (sentinels NCPU) = {}"

text \<open>A buffer without its links, and the memory of these.\<close>

definition payload :: "buf \<Rightarrow> buf" where
  "payload r = r\<lparr>prev := Null, next := Null\<rparr>"

definition pay :: "(ptr \<Rightarrow> buf) \<Rightarrow> ptr \<Rightarrow> buf" where
  "pay m p = payload (m p)"

subsection \<open>Reachable states and their invariants\<close>

text \<open>The result of the bucket scan of \<open>bget(dev, blockno)\<close>: the hit, if any.\<close>

definition lookup :: "machine \<Rightarrow> uint \<Rightarrow> uint \<Rightarrow> ptr option option" where
  "lookup s dv bn =
     scan (mem s) (Head (hash dv bn)) dv bn (next (mem s (Head (hash dv bn))))"

text \<open>The order in which \<open>bget\<close> on CPU \<open>cpu\<close> visits the free lists, and the buffer it
  meets first: the one at the \<open>prev\<close> end of the first list that is not empty.\<close>

definition pool_order :: "nat \<Rightarrow> nat \<Rightarrow> nat list" where
  "pool_order NCPU cpu = cpu # filter (\<lambda>nc. nc \<noteq> cpu) [0..<NCPU]"

definition victim :: "nat \<Rightarrow> nat \<Rightarrow> (ptr \<Rightarrow> buf) \<Rightarrow> (nat \<times> ptr) option" where
  "victim NCPU cpu m =
     (case find (\<lambda>c. prev (m (Freelist c)) \<noteq> Freelist c) (pool_order NCPU cpu) of
        None \<Rightarrow> None
      | Some c \<Rightarrow> Some (c, prev (m (Freelist c))))"

text \<open>A buffer is indexed when it is in one of the bucket lists.\<close>

definition indexed :: "machine \<Rightarrow> ptr \<Rightarrow> bool" where
  "indexed s b \<longleftrightarrow>
     list_ex (\<lambda>i. case members (mem s) (Head i) of None \<Rightarrow> False | Some xs \<Rightarrow> b \<in> set xs)
       [0..<HASHSIZE]"

text \<open>The states reached by calls of the interface that return, in any order and with
  any arguments, \<open>binit\<close> included, from any memory.\<close>

inductive reachable :: "nat \<Rightarrow> nat \<Rightarrow> machine \<Rightarrow> bool" for NBUF NCPU where
  init: "0 < NCPU \<Longrightarrow> reachable NBUF NCPU (binit NBUF NCPU ticks s)"
| step: "reachable NBUF NCPU s \<Longrightarrow> exec NBUF NCPU c s = Some s' \<Longrightarrow> reachable NBUF NCPU s'"

text \<open>The states of a kernel that runs \<open>binit\<close> once, on the zeroed memory it boots with,
  and whose callers pin and unpin only buffers that are indexed.\<close>

fun legal :: "machine \<Rightarrow> call \<Rightarrow> bool" where
  "legal s (Binit ticks) = False"
| "legal s (Bpin i) = indexed s (Buf i)"
| "legal s (Bunpin i) = indexed s (Buf i)"
| "legal s c = True"

inductive booted :: "nat \<Rightarrow> nat \<Rightarrow> machine \<Rightarrow> bool" for NBUF NCPU where
  boot: "0 < NCPU \<Longrightarrow> booted NBUF NCPU (binit NBUF NCPU ticks (boot d))"
| step: "booted NBUF NCPU s \<Longrightarrow> legal s c \<Longrightarrow> exec NBUF NCPU c s = Some s' \<Longrightarrow>
         booted NBUF NCPU s'"

text \<open>The invariant of the reachable states, for the contents \<open>L\<close> of the lists: the
  lists are well formed and partition the buffers; a buffer in a free list is not
  locked; a buffer in a bucket is in the bucket of its identity.\<close>

definition cache_inv :: "nat \<Rightarrow> nat \<Rightarrow> machine \<Rightarrow> (ptr \<Rightarrow> ptr list) \<Rightarrow> bool" where
  "cache_inv NBUF NCPU s L \<longleftrightarrow>
     linked NCPU (Buf ` {..<NBUF}) (nxt (mem s)) (prv (mem s)) L \<and>
     (\<forall>c<NCPU. \<forall>b \<in> set (L (Freelist c)). \<not> locked (lock (mem s b))) \<and>
     (\<forall>i<HASHSIZE. \<forall>b \<in> set (L (Head i)). hash (dev (mem s b)) (blockno (mem s b)) = i)"

text \<open>The further invariant of the booted states: a buffer in a free list has no
  reference.\<close>

definition free_inv :: "nat \<Rightarrow> machine \<Rightarrow> (ptr \<Rightarrow> ptr list) \<Rightarrow> bool" where
  "free_inv NCPU s L \<longleftrightarrow> (\<forall>c<NCPU. \<forall>b \<in> set (L (Freelist c)). refcnt (mem s b) = 0)"

text \<open>The buffer that a call of \<open>bget\<close> or \<open>bread\<close> returns, and the machine it leaves,
  when the call returns.\<close>

fun buf_of :: "(fault + ptr \<times> machine) option \<Rightarrow> ptr option" where
  "buf_of (Some (Inr (b, s))) = Some b"
| "buf_of r = None"

fun state_of :: "(fault + ptr \<times> machine) option \<Rightarrow> machine option" where
  "state_of (Some (Inr (b, s))) = Some s"
| "state_of r = None"

section \<open>Properties\<close>

subsection \<open>Stores\<close>

lemma mem_emit [simp]: "mem (emit e s) = mem s"
  and disk_emit [simp]: "disk (emit e s) = disk s"
  and trace_emit [simp]: "trace (emit e s) = trace s @ [e]"
  by (simp_all add: emit_def)

lemma mem_store:
  "mem (store_next p q s) = (mem s)(p := (mem s p)\<lparr>next := q\<rparr>)"
  "mem (store_prev p q s) = (mem s)(p := (mem s p)\<lparr>prev := q\<rparr>)"
  "mem (store_refcnt p r s) = (mem s)(p := (mem s p)\<lparr>refcnt := r\<rparr>)"
  "mem (store_dev p u s) = (mem s)(p := (mem s p)\<lparr>dev := u\<rparr>)"
  "mem (store_blockno p u s) = (mem s)(p := (mem s p)\<lparr>blockno := u\<rparr>)"
  "mem (store_valid p v s) = (mem s)(p := (mem s p)\<lparr>valid := v\<rparr>)"
  "mem (store_timestamp p u s) = (mem s)(p := (mem s p)\<lparr>timestamp := u\<rparr>)"
  by (simp_all add: store_next_def store_prev_def store_refcnt_def store_dev_def
      store_blockno_def store_valid_def store_timestamp_def)

lemma disk_store [simp]:
  "disk (store_next p q s) = disk s"
  "disk (store_prev p q s) = disk s"
  "disk (store_refcnt p r s) = disk s"
  "disk (store_dev p u s) = disk s"
  "disk (store_blockno p u s) = disk s"
  "disk (store_valid p v s) = disk s"
  "disk (store_timestamp p u s) = disk s"
  by (simp_all add: store_next_def store_prev_def store_refcnt_def store_dev_def
      store_blockno_def store_valid_def store_timestamp_def)

lemma trace_store [simp]:
  "trace (store_next p q s) = trace s @ [Store p F_next]"
  "trace (store_prev p q s) = trace s @ [Store p F_prev]"
  "trace (store_refcnt p r s) = trace s @ [Store p F_refcnt]"
  "trace (store_dev p u s) = trace s @ [Store p F_dev]"
  "trace (store_blockno p u s) = trace s @ [Store p F_blockno]"
  "trace (store_valid p v s) = trace s @ [Store p F_valid]"
  "trace (store_timestamp p u s) = trace s @ [Store p F_timestamp]"
  by (simp_all add: store_next_def store_prev_def store_refcnt_def store_dev_def
      store_blockno_def store_valid_def store_timestamp_def)

lemma mem_spin [simp]:
  "mem (initlock lk s) = mem s"
  "mem (acquire lk s) = mem s"
  "mem (release lk s) = mem s"
  "mem (push_off s) = mem s"
  "mem (pop_off s) = mem s"
  by (simp_all add: initlock_def acquire_def release_def push_off_def pop_off_def)

lemma disk_spin [simp]:
  "disk (initlock lk s) = disk s"
  "disk (acquire lk s) = disk s"
  "disk (release lk s) = disk s"
  "disk (push_off s) = disk s"
  "disk (pop_off s) = disk s"
  by (simp_all add: initlock_def acquire_def release_def push_off_def pop_off_def)

lemma trace_spin [simp]:
  "trace (initlock lk s) = trace s @ [Initlock lk]"
  "trace (acquire lk s) = trace s @ [Acquire lk]"
  "trace (release lk s) = trace s @ [Release lk]"
  "trace (push_off s) = trace s @ [Push_off]"
  "trace (pop_off s) = trace s @ [Pop_off]"
  by (simp_all add: initlock_def acquire_def release_def push_off_def pop_off_def)

lemma mem_sleeplock:
  "mem (initsleeplock p s) = (mem s)(p := (mem s p)\<lparr>lock := \<lparr>locked = False, pid = 0\<rparr>\<rparr>)"
  "mem (releasesleep p s) = (mem s)(p := (mem s p)\<lparr>lock := \<lparr>locked = False, pid = 0\<rparr>\<rparr>)"
  by (simp_all add: initsleeplock_def releasesleep_def)

lemma sleeplock_simps [simp]:
  "disk (initsleeplock p s) = disk s"
  "trace (initsleeplock p s) = trace s @ [Initsleeplock p]"
  "disk (releasesleep p s) = disk s"
  "trace (releasesleep p s) = trace s @ [Releasesleep p]"
  by (simp_all add: initsleeplock_def releasesleep_def)

lemma mem_virtio_disk_rw:
  "mem (virtio_disk_rw b True s) = mem s"
  "mem (virtio_disk_rw b False s) =
     (mem s)(b := (mem s b)\<lparr>data := disk s (dev (mem s b), blockno (mem s b))\<rparr>)"
  by (simp_all add: virtio_disk_rw_def)

lemma virtio_disk_rw_simps [simp]:
  "disk (virtio_disk_rw b True s) =
     (disk s)((dev (mem s b), blockno (mem s b)) := data (mem s b))"
  "disk (virtio_disk_rw b False s) = disk s"
  "trace (virtio_disk_rw b w s) = trace s @ [Disk_rw b w]"
  by (simp_all add: virtio_disk_rw_def)

text \<open>A memory is its successor function, its predecessor function and the rest of
  each buffer.\<close>

lemma payload_simps [simp]:
  "valid (payload r) = valid r" "dev (payload r) = dev r" "blockno (payload r) = blockno r"
  "lock (payload r) = lock r" "refcnt (payload r) = refcnt r" "data (payload r) = data r"
  "timestamp (payload r) = timestamp r"
  "payload (r\<lparr>next := q\<rparr>) = payload r" "payload (r\<lparr>prev := q\<rparr>) = payload r"
  "payload (payload r) = payload r"
  by (simp_all add: payload_def)

lemma payload_upd [simp]:
  "payload (r\<lparr>valid := v\<rparr>) = (payload r)\<lparr>valid := v\<rparr>"
  "payload (r\<lparr>dev := u\<rparr>) = (payload r)\<lparr>dev := u\<rparr>"
  "payload (r\<lparr>blockno := u\<rparr>) = (payload r)\<lparr>blockno := u\<rparr>"
  "payload (r\<lparr>lock := l\<rparr>) = (payload r)\<lparr>lock := l\<rparr>"
  "payload (r\<lparr>refcnt := u\<rparr>) = (payload r)\<lparr>refcnt := u\<rparr>"
  "payload (r\<lparr>data := d\<rparr>) = (payload r)\<lparr>data := d\<rparr>"
  "payload (r\<lparr>timestamp := u\<rparr>) = (payload r)\<lparr>timestamp := u\<rparr>"
  by (simp_all add: payload_def)

lemma buf_eqI:
  "next r = next r' \<Longrightarrow> prev r = prev r' \<Longrightarrow> payload r = payload r' \<Longrightarrow> r = (r' :: buf)"
  by (cases r, cases r') (simp add: payload_def)

lemma mem_eqI: "nxt m = nxt m' \<Longrightarrow> prv m = prv m' \<Longrightarrow> pay m = pay m' \<Longrightarrow> m = m'"
  by (rule ext, rule buf_eqI) (simp_all add: nxt_def prv_def pay_def fun_eq_iff)

lemma nxt_fun_upd: "nxt (m(p := r)) = (nxt m)(p := next r)"
  by (simp add: nxt_def fun_eq_iff)

lemma prv_fun_upd: "prv (m(p := r)) = (prv m)(p := prev r)"
  by (simp add: prv_def fun_eq_iff)

lemma pay_fun_upd: "pay (m(p := r)) = (pay m)(p := payload r)"
  by (simp add: pay_def fun_eq_iff)

text \<open>Reading a field of a buffer, in terms of these three functions.\<close>

lemma read_fold:
  "next (m p) = nxt m p" "prev (m p) = prv m p"
  "valid (m p) = valid (pay m p)" "dev (m p) = dev (pay m p)"
  "blockno (m p) = blockno (pay m p)" "lock (m p) = lock (pay m p)"
  "refcnt (m p) = refcnt (pay m p)" "data (m p) = data (pay m p)"
  "timestamp (m p) = timestamp (pay m p)"
  by (simp_all add: nxt_def prv_def pay_def)

text \<open>The effect of each store on the three functions.\<close>

lemma nxt_store:
  "nxt (mem (store_next p q s)) = (nxt (mem s))(p := q)"
  "nxt (mem (store_prev p q s)) = nxt (mem s)"
  "nxt (mem (store_refcnt p r s)) = nxt (mem s)"
  "nxt (mem (store_dev p u s)) = nxt (mem s)"
  "nxt (mem (store_blockno p u s)) = nxt (mem s)"
  "nxt (mem (store_valid p v s)) = nxt (mem s)"
  "nxt (mem (store_timestamp p u s)) = nxt (mem s)"
  "nxt (mem (initsleeplock p s)) = nxt (mem s)"
  "nxt (mem (releasesleep p s)) = nxt (mem s)"
  "nxt (mem (virtio_disk_rw p w s)) = nxt (mem s)"
  by (cases w; simp add: mem_store mem_sleeplock mem_virtio_disk_rw nxt_def fun_eq_iff)+

lemma prv_store:
  "prv (mem (store_next p q s)) = prv (mem s)"
  "prv (mem (store_prev p q s)) = (prv (mem s))(p := q)"
  "prv (mem (store_refcnt p r s)) = prv (mem s)"
  "prv (mem (store_dev p u s)) = prv (mem s)"
  "prv (mem (store_blockno p u s)) = prv (mem s)"
  "prv (mem (store_valid p v s)) = prv (mem s)"
  "prv (mem (store_timestamp p u s)) = prv (mem s)"
  "prv (mem (initsleeplock p s)) = prv (mem s)"
  "prv (mem (releasesleep p s)) = prv (mem s)"
  "prv (mem (virtio_disk_rw p w s)) = prv (mem s)"
  by (cases w; simp add: mem_store mem_sleeplock mem_virtio_disk_rw prv_def fun_eq_iff)+

lemma pay_store:
  "pay (mem (store_next p q s)) = pay (mem s)"
  "pay (mem (store_prev p q s)) = pay (mem s)"
  "pay (mem (store_refcnt p r s)) = (pay (mem s))(p := (pay (mem s) p)\<lparr>refcnt := r\<rparr>)"
  "pay (mem (store_dev p u s)) = (pay (mem s))(p := (pay (mem s) p)\<lparr>dev := u\<rparr>)"
  "pay (mem (store_blockno p u s)) = (pay (mem s))(p := (pay (mem s) p)\<lparr>blockno := u\<rparr>)"
  "pay (mem (store_valid p v s)) = (pay (mem s))(p := (pay (mem s) p)\<lparr>valid := v\<rparr>)"
  "pay (mem (store_timestamp p u s)) = (pay (mem s))(p := (pay (mem s) p)\<lparr>timestamp := u\<rparr>)"
  "pay (mem (initsleeplock p s)) =
     (pay (mem s))(p := (pay (mem s) p)\<lparr>lock := \<lparr>locked = False, pid = 0\<rparr>\<rparr>)"
  "pay (mem (releasesleep p s)) =
     (pay (mem s))(p := (pay (mem s) p)\<lparr>lock := \<lparr>locked = False, pid = 0\<rparr>\<rparr>)"
  "pay (mem (virtio_disk_rw p True s)) = pay (mem s)"
  "pay (mem (virtio_disk_rw p False s)) =
     (pay (mem s))(p := (pay (mem s) p)
        \<lparr>data := disk s (dev (pay (mem s) p), blockno (pay (mem s) p))\<rparr>)"
  by (simp_all add: mem_store mem_sleeplock mem_virtio_disk_rw pay_def fun_eq_iff)

lemmas effect = nxt_store prv_store pay_store

lemma acquiresleep_effect:
  "acquiresleep pd p s =
     (if locked (lock (pay (mem s) p)) then Inl (Sleep s)
      else Inr (emit (Acquiresleep p pd)
             (s\<lparr>mem := (mem s)(p := (mem s p)\<lparr>lock := \<lparr>locked = True, pid = pd\<rparr>\<rparr>)\<rparr>)))"
  by (simp add: acquiresleep_def pay_def)

lemma acquiresleep_Inr:
  assumes "acquiresleep pd p s = Inr s'"
  shows "nxt (mem s') = nxt (mem s)" "prv (mem s') = prv (mem s)"
    "pay (mem s') = (pay (mem s))(p := (pay (mem s) p)\<lparr>lock := \<lparr>locked = True, pid = pd\<rparr>\<rparr>)"
    "disk s' = disk s" "trace s' = trace s @ [Acquiresleep p pd]"
    "\<not> locked (lock (pay (mem s) p))"
  using assms
  by (auto simp: acquiresleep_def nxt_def prv_def pay_def fun_eq_iff split: if_splits)

lemma acquiresleep_free:
  "\<not> locked (lock (pay (mem s) p)) \<Longrightarrow> \<exists>s'. acquiresleep pd p s = Inr s'"
  by (simp add: acquiresleep_def pay_def)

subsection \<open>bunpin\<close>

lemma bunpin_mem:
  "mem (bunpin b s) = (mem s)(b := (mem s b)\<lparr>refcnt := refcnt (mem s b) - 1\<rparr>)"
  by (simp add: bunpin_def Let_def mem_store)

lemma bunpin_trace:
  "trace (bunpin b s) =
     trace s @ [Acquire (Headlk (hash (dev (mem s b)) (blockno (mem s b)))), Store b F_refcnt,
                Release (Headlk (hash (dev (mem s b)) (blockno (mem s b))))]"
  by (simp add: bunpin_def Let_def)

lemma bunpin_disk: "disk (bunpin b s) = disk s"
  by (simp add: bunpin_def Let_def)

lemma nxt_refcnt_upd: "nxt (m(b := (m b)\<lparr>refcnt := v\<rparr>)) = nxt m"
  by (simp add: nxt_def fun_eq_iff)

lemma prv_refcnt_upd: "prv (m(b := (m b)\<lparr>refcnt := v\<rparr>)) = prv m"
  by (simp add: prv_def fun_eq_iff)

lemma nxt_mem_bunpin: "nxt (mem (bunpin b s)) = nxt (mem s)"
  by (simp add: bunpin_mem nxt_refcnt_upd)

lemma prv_mem_bunpin: "prv (mem (bunpin b s)) = prv (mem s)"
  by (simp add: bunpin_mem prv_refcnt_upd)

subsection \<open>bwrite\<close>

text \<open>
  C8. When the caller holds the content lock of the buffer, \<open>bwrite\<close> hands the buffer to
  the disk driver for writing and returns: the payload is on the device under the
  buffer's identity, and memory is as before (so are the valid flag, the reference
  count, every list and the content lock, which the caller still holds). When the
  caller does not hold the lock, \<open>bwrite\<close> panics.
\<close>

theorem C8_bwrite_commit:
  "(holdingsleep pd b s \<longrightarrow>
      (\<exists>s'. bwrite pd b s = Inr s' \<and> mem s' = mem s \<and>
            disk s' = (disk s)((dev (mem s b), blockno (mem s b)) := data (mem s b)) \<and>
            trace s' = trace s @ [Disk_rw b True] \<and>
            (\<forall>h. members (mem s') h = members (mem s) h) \<and>
            holdingsleep pd b s')) \<and>
   (\<not> holdingsleep pd b s \<longrightarrow> bwrite pd b s = Inl (Panic ''bwrite''))"
  by (simp add: bwrite_def holdingsleep_def mem_virtio_disk_rw)

text \<open>An instance: process 1 has fetched block (1, 0); process 2 has not.\<close>

theorem C8_bwrite_commit_witness:
  "holdingsleep 1 (Buf 0) (the (run 1 1 [Bread 1 0 0 1 0] (binit 1 1 0 (boot blank)))) \<and>
   \<not> holdingsleep 2 (Buf 0) (the (run 1 1 [Bread 1 0 0 1 0] (binit 1 1 0 (boot blank)))) \<and>
   bwrite 2 (Buf 0) (the (run 1 1 [Bread 1 0 0 1 0] (binit 1 1 0 (boot blank))))
     = Inl (Panic ''bwrite'') \<and>
   (\<exists>s'. bwrite 1 (Buf 0) (the (run 1 1 [Bread 1 0 0 1 0] (binit 1 1 0 (boot blank)))) = Inr s' \<and>
      mem s' = mem (the (run 1 1 [Bread 1 0 0 1 0] (binit 1 1 0 (boot blank)))) \<and>
      trace s' = trace (the (run 1 1 [Bread 1 0 0 1 0] (binit 1 1 0 (boot blank))))
                   @ [Disk_rw (Buf 0) True])"
proof -
  define S where "S = the (run 1 1 [Bread 1 0 0 1 0] (binit 1 1 0 (boot blank)))"
  have 1: "holdingsleep 1 (Buf 0) S" unfolding S_def by code_simp
  have 2: "\<not> holdingsleep 2 (Buf 0) S" unfolding S_def by code_simp
  from C8_bwrite_commit [of 1 "Buf 0" S] C8_bwrite_commit [of 2 "Buf 0" S] 1 2
  show ?thesis unfolding S_def [symmetric] by blast
qed

subsection \<open>bunpin\<close>

text \<open>
  C9. \<open>bunpin\<close> takes the bucket lock of the buffer, stores the decremented reference
  count, releases the lock, and changes nothing else: no \<open>next\<close> or \<open>prev\<close> pointer
  changes, so every bucket and every free list has the members it had, also when the
  count has become 0.
\<close>

theorem C9_bunpin_frame:
  "mem (bunpin b s) = (mem s)(b := (mem s b)\<lparr>refcnt := refcnt (mem s b) - 1\<rparr>) \<and>
   disk (bunpin b s) = disk s \<and>
   trace (bunpin b s) =
     trace s @ [Acquire (Headlk (hash (dev (mem s b)) (blockno (mem s b)))), Store b F_refcnt,
                Release (Headlk (hash (dev (mem s b)) (blockno (mem s b))))] \<and>
   nxt (mem (bunpin b s)) = nxt (mem s) \<and>
   prv (mem (bunpin b s)) = prv (mem s) \<and>
   members (mem (bunpin b s)) h = members (mem s) h \<and>
   members_back (mem (bunpin b s)) h = members_back (mem s) h"
  by (simp only: members_def members_back_def nxt_mem_bunpin prv_mem_bunpin
        bunpin_mem [symmetric] bunpin_disk bunpin_trace simp_thms)

text \<open>An instance: the only reference to a fetched buffer is dropped by \<open>bunpin\<close>; the
  buffer stays in its bucket and the free list stays empty.\<close>

theorem C9_bunpin_frame_witness:
  "refcnt (mem (the (run 1 1 [Bread 1 0 0 1 0] (binit 1 1 0 (boot blank)))) (Buf 0)) = 1 \<and>
   members (mem (the (run 1 1 [Bread 1 0 0 1 0] (binit 1 1 0 (boot blank))))) (Head 11)
     = Some [Buf 0] \<and>
   refcnt (mem (bunpin (Buf 0) (the (run 1 1 [Bread 1 0 0 1 0] (binit 1 1 0 (boot blank)))))
     (Buf 0)) = 0 \<and>
   members (mem (bunpin (Buf 0) (the (run 1 1 [Bread 1 0 0 1 0] (binit 1 1 0 (boot blank))))))
     (Head 11) = Some [Buf 0] \<and>
   members (mem (bunpin (Buf 0) (the (run 1 1 [Bread 1 0 0 1 0] (binit 1 1 0 (boot blank))))))
     (Freelist 0) = Some []"
proof -
  define S where "S = the (run 1 1 [Bread 1 0 0 1 0] (binit 1 1 0 (boot blank)))"
  have 1: "refcnt (mem S (Buf 0)) = 1" unfolding S_def by code_simp
  have 2: "members (mem S) (Head 11) = Some [Buf 0]" unfolding S_def by code_simp
  have 3: "members (mem S) (Freelist 0) = Some []" unfolding S_def by code_simp
  have m: "members (mem (bunpin (Buf 0) S)) h = members (mem S) h" for h
    using C9_bunpin_frame [of "Buf 0" S h] by blast
  have "mem (bunpin (Buf 0) S) = (mem S)(Buf 0 := (mem S (Buf 0))\<lparr>refcnt := refcnt (mem S (Buf 0)) - 1\<rparr>)"
    using C9_bunpin_frame [of "Buf 0" S] by blast
  then have r: "refcnt (mem (bunpin (Buf 0) S) (Buf 0)) = refcnt (mem S (Buf 0)) - 1"
    by simp
  show ?thesis unfolding S_def [symmetric] by (simp add: m r 1 2 3)
qed

text \<open>
  C10. \<open>bunpin\<close> checks nothing: whatever the state of the locks and of the count, it
  returns with the count decremented. From 0 the unsigned count wraps around to
  \<open>2 ^ 32 - 1\<close>.
\<close>

theorem C10_bunpin_unchecked:
  "mem (bunpin b s) b = (mem s b)\<lparr>refcnt := refcnt (mem s b) - 1\<rparr> \<and>
   (refcnt (mem s b) = 0 \<longrightarrow>
      refcnt (mem (bunpin b s) b) = - 1 \<and>
      unat (refcnt (mem (bunpin b s) b)) = 2 ^ 32 - 1)"
  by (simp add: bunpin_mem unsigned_minus_1_eq_mask mask_eq_exp_minus_1)

text \<open>An instance: a buffer that is free and not locked, right after \<open>binit\<close>.\<close>

theorem C10_bunpin_unchecked_witness:
  "\<not> locked (lock (mem (binit 1 1 0 (boot blank)) (Buf 0))) \<and>
   refcnt (mem (binit 1 1 0 (boot blank)) (Buf 0)) = 0 \<and>
   unat (refcnt (mem (bunpin (Buf 0) (binit 1 1 0 (boot blank))) (Buf 0))) = 2 ^ 32 - 1"
proof -
  define S where "S = binit 1 1 0 (boot blank)"
  have 1: "\<not> locked (lock (mem S (Buf 0)))" unfolding S_def by code_simp
  have 2: "refcnt (mem S (Buf 0)) = 0" unfolding S_def by code_simp
  from C10_bunpin_unchecked [of "Buf 0" S] 2
  have "unat (refcnt (mem (bunpin (Buf 0) S) (Buf 0))) = 2 ^ 32 - 1" by blast
  with 1 2 show ?thesis unfolding S_def [symmetric] by blast
qed

subsection \<open>Paths and doubly linked lists\<close>

lemma path_append: "path f p (xs @ y # ys) q \<longleftrightarrow> path f p xs y \<and> path f y ys q"
  by (induction xs arbitrary: p) auto

lemma path_snoc: "path f p (xs @ [y]) q \<longleftrightarrow> path f p xs y \<and> f y = q"
  by (simp add: path_append)

lemma path_hd: "path f p xs q \<Longrightarrow> f p = hd (xs @ [q])"
  by (cases xs) auto

lemma path_frame:
  "\<forall>x \<in> set (p # xs). f' x = f x \<Longrightarrow> path f' p xs q = path f p xs q"
  by (induction xs arbitrary: p) auto

lemma path_remove:
  "path f p (ys @ b # zs) q \<Longrightarrow> distinct (p # ys @ b # zs) \<Longrightarrow>
   path (f(last (p # ys) := f b)) p (ys @ zs) q"
proof (induction ys arbitrary: p)
  case Nil
  then have bz: "path f b zs q" and d: "p \<notin> set zs"
    by auto
  have "path (f(p := f b)) p zs q"
  proof (cases zs)
    case Nil
    with bz show ?thesis by simp
  next
    case (Cons z zs')
    with bz have z: "z = f b" and t: "path f z zs' q" by auto
    have "path (f(p := f b)) z zs' q = path f z zs' q"
      using d Cons by (intro path_frame) auto
    with t show ?thesis unfolding Cons z by simp
  qed
  then show ?case by (simp del: last.simps fun_upd_apply add: last_ConsL)
next
  case (Cons y ys)
  from Cons.prems have "path f y (ys @ b # zs) q" "distinct (y # ys @ b # zs)" and fp: "y = f p"
    by auto
  from Cons.IH [OF this(1,2)] have "path (f(last (y # ys) := f b)) y (ys @ zs) q" .
  moreover have "last (y # ys) \<in> set (y # ys)"
    by (rule last_in_set) simp
  with Cons.prems have "p \<noteq> last (y # ys)"
    by auto
  ultimately show ?case unfolding fp
    by (simp del: last.simps fun_upd_apply add: last_ConsR fun_upd_other)
qed

lemma path_push:
  assumes "path f h xs q" "b \<noteq> h" "b \<notin> set xs" "h \<notin> set xs"
  shows "path (f(b := f h, h := b)) h (b # xs) q"
proof (cases xs)
  case Nil
  with assms show ?thesis by simp
next
  case (Cons x xs')
  with assms have x: "x = f h" and t: "path f x xs' q" by auto
  have "path (f(b := f h, h := b)) x xs' q = path f x xs' q"
    using assms Cons by (intro path_frame) auto
  with t show ?thesis using assms(2) unfolding Cons x by simp
qed

lemma path_snoc_upd:
  "path g h ws q \<Longrightarrow> b \<notin> set (h # ws) \<Longrightarrow> distinct (h # ws) \<Longrightarrow>
   path (g(b := q, last (h # ws) := b)) h (ws @ [b]) q"
proof (induction ws arbitrary: h)
  case Nil
  then have "b \<noteq> h" by auto
  then show ?case by (simp del: last.simps add: last_ConsL)
next
  case (Cons w ws)
  from Cons.prems have "path g w ws q" "b \<notin> set (w # ws)" "distinct (w # ws)" and gh: "w = g h"
    by auto
  from Cons.IH [OF this(1,2,3)] have "path (g(b := q, last (w # ws) := b)) w (ws @ [b]) q" .
  moreover have "last (w # ws) \<in> set (w # ws)"
    by (rule last_in_set) simp
  with Cons.prems have "h \<noteq> last (w # ws)"
    by auto
  moreover from Cons.prems have "h \<noteq> b" by auto
  ultimately show ?case unfolding gh
    by (simp del: last.simps fun_upd_apply add: last_ConsR fun_upd_other)
qed

lemma last_rev_hd: "last (h # rev zs) = hd (zs @ [h])"
  by (cases zs) auto

lemma hd_rev_last: "hd (rev ys @ [h]) = last (h # ys)"
  by (cases ys rule: rev_cases) auto

lemma dll_next: "dll nx pv h (ys @ b # zs) \<Longrightarrow> nx b = hd (zs @ [h])"
  by (auto simp: dll_def path_append dest: path_hd)

lemma dll_prev: "dll nx pv h (ys @ b # zs) \<Longrightarrow> pv b = last (h # ys)"
  by (auto simp: dll_def path_append hd_rev_last dest!: path_hd)

lemma dll_remove:
  assumes "dll nx pv h (ys @ b # zs)"
  shows "dll (nx(pv b := nx b)) (pv(nx b := pv b)) h (ys @ zs)"
proof -
  have n: "hd (zs @ [h]) = nx b" and p: "last (h # ys) = pv b"
    using dll_next [OF assms] dll_prev [OF assms] by simp_all
  from assms have 1: "path nx h (ys @ b # zs) h" and d: "distinct (h # ys @ b # zs)"
    and 2: "path pv h (rev zs @ b # rev ys) h"
    by (auto simp: dll_def)
  from d have d': "distinct (h # rev zs @ b # rev ys)" by auto
  have "path (nx(pv b := nx b)) h (ys @ zs) h"
    using path_remove [OF 1 d] by (simp only: p)
  moreover have "path (pv(nx b := pv b)) h (rev (ys @ zs)) h"
    using path_remove [OF 2 d'] by (simp only: last_rev_hd n rev_append)
  ultimately show ?thesis using d by (simp add: dll_def)
qed

lemma dll_push:
  assumes "dll nx pv h xs" "b \<notin> set (h # xs)"
  shows "dll (nx(b := nx h, h := b)) (pv(b := h, nx h := b)) h (b # xs)"
proof -
  from assms have 1: "path nx h xs h" and 2: "path pv h (rev xs) h" and d: "distinct (h # xs)"
    by (auto simp: dll_def)
  have n: "last (h # rev xs) = nx h"
    using path_hd [OF 1] by (simp only: last_rev_hd)
  from assms(2) d have "b \<notin> set (h # rev xs)" "distinct (h # rev xs)" by auto
  from path_snoc_upd [OF 2 this] have "path (pv(b := h, nx h := b)) h (rev (b # xs)) h"
    by (simp only: n rev.simps)
  moreover have "path (nx(b := nx h, h := b)) h (b # xs) h"
    using path_push [OF 1] assms(2) d by auto
  ultimately show ?thesis using d assms(2) by (auto simp: dll_def)
qed

lemma dll_frame:
  "dll nx pv h xs \<Longrightarrow> \<forall>x \<in> set (h # xs). nx' x = nx x \<and> pv' x = pv x \<Longrightarrow> dll nx' pv' h xs"
  unfolding dll_def using path_frame [of h xs nx' nx h] path_frame [of h "rev xs" pv' pv h]
  by auto

subsection \<open>The lists of the cache\<close>

lemma sentinels_iff [simp]:
  "Head i \<in> set (sentinels NCPU) \<longleftrightarrow> i < HASHSIZE"
  "Freelist c \<in> set (sentinels NCPU) \<longleftrightarrow> c < NCPU"
  "Buf i \<notin> set (sentinels NCPU)"
  "Null \<notin> set (sentinels NCPU)"
  by (auto simp: sentinels_def)

lemma distinct_sentinels: "distinct (sentinels NCPU)"
  by (auto simp: sentinels_def distinct_map inj_on_def)

lemma linkedD:
  assumes "linked NCPU X nx pv L" "h \<in> set (sentinels NCPU)"
  shows "dll nx pv h (L h)" "set (L h) \<subseteq> X" "set (L h) \<inter> set (sentinels NCPU) = {}"
    "distinct (L h)" "h \<notin> set (L h)"
  using assms by (auto simp: linked_def dll_def)

lemma linked_disjoint:
  "linked NCPU X nx pv L \<Longrightarrow> h \<in> set (sentinels NCPU) \<Longrightarrow> h' \<in> set (sentinels NCPU) \<Longrightarrow>
   h \<noteq> h' \<Longrightarrow> x \<in> set (L h) \<Longrightarrow> x \<notin> set (L h')"
  by (auto simp: linked_def)

lemma linked_owner:
  "linked NCPU X nx pv L \<Longrightarrow> x \<in> X \<Longrightarrow> \<exists>h \<in> set (sentinels NCPU). x \<in> set (L h)"
  by (auto simp: linked_def)

lemma last_in_cons: "last (h # ys) \<in> insert h (set ys)"
  by (cases ys rule: rev_cases) auto

lemma hd_in_snoc: "hd (zs @ [h]) \<in> insert h (set zs)"
  by (cases zs) auto

lemma linked_remove:
  assumes l: "linked NCPU X nx pv L" and h: "h \<in> set (sentinels NCPU)"
    and Lh: "L h = ys @ b # zs"
  shows "linked NCPU (X - {b}) (nx(pv b := nx b)) (pv(nx b := pv b)) (L(h := ys @ zs))"
proof -
  let ?S = "set (sentinels NCPU)"
  let ?nx = "nx(pv b := nx b)" and ?pv = "pv(nx b := pv b)"
  have dh: "dll nx pv h (ys @ b # zs)"
    using linkedD(1) [OF l h] Lh by simp
  have n: "nx b \<in> insert h (set zs)"
    using dll_next [OF dh] hd_in_snoc [of zs h] by simp
  have p: "pv b \<in> insert h (set ys)"
    using dll_prev [OF dh] last_in_cons [of h ys] by simp
  have 1: "dll ?nx ?pv h' ((L(h := ys @ zs)) h')" if h': "h' \<in> ?S" for h'
  proof (cases "h' = h")
    case True
    with dll_remove [OF dh] show ?thesis by simp
  next
    case False
    have d': "dll nx pv h' (L h')" by (rule linkedD(1) [OF l h'])
    have hh: "h \<notin> set (h' # L h')"
      using False linkedD(3) [OF l h'] h by auto
    have "x \<notin> set (h' # L h')" if "x \<in> set (L h)" for x
      using that linked_disjoint [OF l h h' _ that] False linkedD(3) [OF l h] h' by auto
    with n p hh Lh have "nx b \<notin> set (h' # L h')" "pv b \<notin> set (h' # L h')"
      by auto
    then have "\<forall>x \<in> set (h' # L h'). ?nx x = nx x \<and> ?pv x = pv x"
      by auto
    then have "dll ?nx ?pv h' (L h')"
      by (intro dll_frame [OF d'])
    with False show ?thesis by simp
  qed
  have dist: "distinct (ys @ b # zs)"
    using linkedD(4) [OF l h] Lh by simp
  have 2: "set ((L(h := ys @ zs)) h1) \<inter> set ((L(h := ys @ zs)) h2) = {}"
    if "h1 \<in> ?S" "h2 \<in> ?S" "h1 \<noteq> h2" for h1 h2
  proof -
    have dj: "set (L h1) \<inter> set (L h2) = {}"
      using that l by (simp add: linked_def)
    show ?thesis
    proof (cases "h1 = h")
      case True
      with that have "h2 \<noteq> h" by simp
      with True dj Lh show ?thesis by auto
    next
      case False
      with dj Lh show ?thesis by (cases "h2 = h") auto
    qed
  qed
  have 3: "(\<Union>k \<in> ?S. set ((L(h := ys @ zs)) k)) = X - {b}"
  proof -
    have X: "(\<Union>k \<in> ?S. set (L k)) = X" using l by (simp add: linked_def)
    have b: "b \<notin> set (L k)" if "k \<in> ?S" "k \<noteq> h" for k
      using linked_disjoint [OF l h that(1)] that(2) Lh by auto
    have "(\<Union>k \<in> ?S. set ((L(h := ys @ zs)) k)) = (\<Union>k \<in> ?S. set (L k) - {b})"
    proof (rule SUP_cong [OF refl])
      fix k assume "k \<in> ?S"
      then show "set ((L(h := ys @ zs)) k) = set (L k) - {b}"
        using b [of k] dist Lh by (cases "k = h") auto
    qed
    also have "\<dots> = X - {b}" using X by auto
    finally show ?thesis .
  qed
  have 4: "(X - {b}) \<inter> ?S = {}" using l by (auto simp: linked_def)
  from 1 2 3 4 show ?thesis unfolding linked_def by blast
qed

lemma linked_push:
  assumes l: "linked NCPU X nx pv L" and h: "h \<in> set (sentinels NCPU)"
    and bX: "b \<notin> X" and bS: "b \<notin> set (sentinels NCPU)"
  shows "linked NCPU (insert b X) (nx(b := nx h, h := b)) (pv(b := h, nx h := b))
           (L(h := b # L h))"
proof -
  let ?S = "set (sentinels NCPU)"
  let ?nx = "nx(b := nx h, h := b)" and ?pv = "pv(b := h, nx h := b)"
  have dh: "dll nx pv h (L h)" by (rule linkedD(1) [OF l h])
  have bh: "b \<notin> set (h # L h)"
    using bX bS h linkedD(2) [OF l h] by auto
  have n: "nx h \<in> insert h (set (L h))"
    using dh hd_in_snoc [of "L h" h] by (auto simp: dll_def dest!: path_hd)
  have 1: "dll ?nx ?pv h' ((L(h := b # L h)) h')" if h': "h' \<in> ?S" for h'
  proof (cases "h' = h")
    case True
    with dll_push [OF dh bh] show ?thesis by simp
  next
    case False
    have d': "dll nx pv h' (L h')" by (rule linkedD(1) [OF l h'])
    have hh: "h \<notin> set (h' # L h')"
      using False linkedD(3) [OF l h'] h by auto
    have "x \<notin> set (h' # L h')" if "x \<in> set (L h)" for x
      using that linked_disjoint [OF l h h' _ that] False linkedD(3) [OF l h] h' by auto
    with n hh have "nx h \<notin> set (h' # L h')"
      by auto
    moreover have "b \<notin> set (h' # L h')"
      using bX bS h' linkedD(2) [OF l h'] by auto
    ultimately have "\<forall>x \<in> set (h' # L h'). ?nx x = nx x \<and> ?pv x = pv x"
      using hh by auto
    then have "dll ?nx ?pv h' (L h')"
      by (intro dll_frame [OF d'])
    with False show ?thesis by simp
  qed
  have b: "b \<notin> set (L k)" if "k \<in> ?S" for k
    using bX linkedD(2) [OF l that] by auto
  have 2: "set ((L(h := b # L h)) h1) \<inter> set ((L(h := b # L h)) h2) = {}"
    if "h1 \<in> ?S" "h2 \<in> ?S" "h1 \<noteq> h2" for h1 h2
  proof -
    have dj: "set (L h1) \<inter> set (L h2) = {}"
      using that l by (simp add: linked_def)
    show ?thesis
    proof (cases "h1 = h")
      case True
      with that have "h2 \<noteq> h" by simp
      with True dj b [OF that(2)] show ?thesis by auto
    next
      case False
      with dj b [OF that(1)] show ?thesis by (cases "h2 = h") auto
    qed
  qed
  have 3: "(\<Union>k \<in> ?S. set ((L(h := b # L h)) k)) = insert b X"
  proof -
    have X: "(\<Union>k \<in> ?S. set (L k)) = X" using l by (simp add: linked_def)
    have "(\<Union>k \<in> ?S. set ((L(h := b # L h)) k)) = insert b (\<Union>k \<in> ?S. set (L k))"
      using h by (auto split: if_splits)
    with X show ?thesis by simp
  qed
  have 4: "insert b X \<inter> ?S = {}" using l bS by (auto simp: linked_def)
  from 1 2 3 4 show ?thesis unfolding linked_def by blast
qed

lemma walk_path: "path f p xs h \<Longrightarrow> h \<notin> set xs \<Longrightarrow> walk f h (f p) = Some xs"
proof (induction xs arbitrary: p)
  case Nil
  then show ?case by (subst walk.simps) simp
next
  case (Cons x xs)
  then have "walk f h (f x) = Some xs" "f p = x" "x \<noteq> h" by auto
  then show ?case by (subst walk.simps) simp
qed

lemma dll_members:
  assumes "dll (nxt m) (prv m) h xs"
  shows "members m h = Some xs" "members_back m h = Some (rev xs)"
  using assms walk_path [of "nxt m" h xs h] walk_path [of "prv m" h "rev xs" h]
  by (auto simp: dll_def members_def members_back_def)

lemma scan_path:
  "path (nxt m) p xs h \<Longrightarrow> h \<notin> set xs \<Longrightarrow>
   scan m h dv bn (nxt m p) = Some (find (\<lambda>b. dev (m b) = dv \<and> blockno (m b) = bn) xs)"
proof (induction xs arbitrary: p)
  case Nil
  then show ?case by (subst scan.simps) simp
next
  case (Cons x xs)
  then have "scan m h dv bn (nxt m x) = Some (find (\<lambda>b. dev (m b) = dv \<and> blockno (m b) = bn) xs)"
    "nxt m p = x" "x \<noteq> h" by auto
  then show ?case by (subst scan.simps) (simp add: nxt_def)
qed

lemma walk_scan:
  "walk (nxt m) h p = Some xs \<Longrightarrow>
   scan m h dv bn p = Some (find (\<lambda>b. dev (m b) = dv \<and> blockno (m b) = bn) xs)"
proof (induction xs arbitrary: p)
  case Nil
  then have "p = h"
    by (subst (asm) walk.simps) (auto split: if_splits simp: bind_eq_Some_conv)
  then show ?case by (subst scan.simps) simp
next
  case (Cons x xs)
  from Cons.prems have *: "p \<noteq> h" "x = p" "walk (nxt m) h (nxt m p) = Some xs"
    by (subst (asm) walk.simps; auto split: if_splits simp: bind_eq_Some_conv)+
  from Cons.IH [OF *(3)]
  have "scan m h dv bn (next (m p)) = Some (find (\<lambda>b. dev (m b) = dv \<and> blockno (m b) = bn) xs)"
    by (simp only: nxt_def)
  with * show ?case
    by (subst scan.simps) simp
qed

subsection \<open>Recycling a buffer\<close>

lemma read_mem:
  "next (mem s p) = nxt (mem s) p" "prev (mem s p) = prv (mem s) p"
  "valid (mem s p) = valid (pay (mem s) p)" "dev (mem s p) = dev (pay (mem s) p)"
  "blockno (mem s p) = blockno (pay (mem s) p)" "lock (mem s p) = lock (pay (mem s) p)"
  "refcnt (mem s p) = refcnt (pay (mem s) p)" "data (mem s p) = data (pay (mem s) p)"
  "timestamp (mem s p) = timestamp (pay (mem s) p)"
  by (simp_all add: nxt_def prv_def pay_def)

lemma acquiresleep_views:
  "\<not> locked (lock (pay (mem s) p)) \<Longrightarrow>
   \<exists>s'. acquiresleep pd p s = Inr s' \<and> nxt (mem s') = nxt (mem s) \<and> prv (mem s') = prv (mem s) \<and>
     pay (mem s') = (pay (mem s))(p := (pay (mem s) p)\<lparr>lock := \<lparr>locked = True, pid = pd\<rparr>\<rparr>) \<and>
     disk s' = disk s \<and> trace s' = trace s @ [Acquiresleep p pd]"
  by (simp add: acquiresleep_def nxt_def prv_def pay_def fun_eq_iff)

lemma recycle_effect:
  assumes "prv (mem s) b \<noteq> b" "b \<noteq> Head ident" "refcnt (mem s b) = 0"
    "\<not> locked (lock (mem s b))"
  shows "\<exists>s'. recycle pd ident c dv bn b s = Inr (b, s') \<and>
    nxt (mem s') = ((nxt (mem s))(prv (mem s) b := nxt (mem s) b))
        (b := ((nxt (mem s))(prv (mem s) b := nxt (mem s) b)) (Head ident), Head ident := b) \<and>
    prv (mem s') = ((prv (mem s))(nxt (mem s) b := prv (mem s) b))
        (b := Head ident, ((nxt (mem s))(prv (mem s) b := nxt (mem s) b)) (Head ident) := b) \<and>
    pay (mem s') = (pay (mem s))(b := (pay (mem s) b)\<lparr>dev := dv, blockno := bn, valid := 0,
        refcnt := 1, lock := \<lparr>locked = True, pid = pd\<rparr>\<rparr>) \<and>
    disk s' = disk s"
proof -
  define s1 where "s1 =
       (let s = store_next (prev (mem s b)) (next (mem s b)) s;
            s = store_prev (next (mem s b)) (prev (mem s b)) s;
            s = store_next b (next (mem s (Head ident))) s;
            s = store_prev b (Head ident) s;
            s = store_prev (next (mem s (Head ident))) b s;
            s = store_next (Head ident) b s;
            s = store_dev b dv s;
            s = store_blockno b bn s;
            s = store_valid b 0 s;
            s = store_refcnt b 1 s;
            s = release (Headlk ident) s;
            s = release (Freelk c) s
        in s)"
  have r: "recycle pd ident c dv bn b s =
     (case acquiresleep pd b s1 of Inl f \<Rightarrow> Inl f | Inr s \<Rightarrow> Inr (b, pop_off s))"
    using assms(3) by (simp add: recycle_def s1_def Let_def)
  have n1: "nxt (mem s1) = ((nxt (mem s))(prv (mem s) b := nxt (mem s) b))
        (b := ((nxt (mem s))(prv (mem s) b := nxt (mem s) b)) (Head ident), Head ident := b)"
    using assms(1,2) unfolding s1_def Let_def
    by (simp add: read_mem effect del: fun_upd_apply) 
  have p1: "prv (mem s1) = ((prv (mem s))(nxt (mem s) b := prv (mem s) b))
        (b := Head ident, ((nxt (mem s))(prv (mem s) b := nxt (mem s) b)) (Head ident) := b)"
    using assms(1,2) unfolding s1_def Let_def
    by (simp add: read_mem effect fun_upd_other del: fun_upd_apply)
  have y1: "pay (mem s1) = (pay (mem s))(b := (pay (mem s) b)\<lparr>dev := dv, blockno := bn, valid := 0,
        refcnt := 1\<rparr>)"
    unfolding s1_def Let_def
    by (simp add: read_mem effect)
  have d1: "disk s1 = disk s"
    unfolding s1_def Let_def by simp
  have "\<not> locked (lock (pay (mem s1) b))"
    using assms(4) by (simp add: y1 read_mem)
  from acquiresleep_views [OF this, of pd] obtain s2 where
    "acquiresleep pd b s1 = Inr s2" "nxt (mem s2) = nxt (mem s1)" "prv (mem s2) = prv (mem s1)"
    "pay (mem s2) = (pay (mem s1))(b := (pay (mem s1) b)\<lparr>lock := \<lparr>locked = True, pid = pd\<rparr>\<rparr>)"
    "disk s2 = disk s1"
    by blast
  then show ?thesis
    by (simp add: r n1 p1 y1 d1)
qed

subsection \<open>The structure of bget\<close>

lemma hash_less: "hash dv bn < HASHSIZE"
  unfolding hash_def HASHSIZE_def
  by (simp add: unat_mod word_less_nat_alt)

lemma linked_move:
  assumes l: "linked NCPU X nx pv L" and h: "h \<in> set (sentinels NCPU)"
    and Lh: "L h = ys @ b # zs" and h': "h' \<in> set (sentinels NCPU)"
    and nx1: "nx1 = nx(pv b := nx b)" and pv1: "pv1 = pv(nx b := pv b)"
    and L1: "L1 = L(h := ys @ zs)"
  shows "linked NCPU X (nx1(b := nx1 h', h' := b)) (pv1(b := h', nx1 h' := b))
           (L1(h' := b # L1 h'))"
proof -
  have bX: "b \<in> X" using linkedD(2) [OF l h] Lh by auto
  then have bS: "b \<notin> set (sentinels NCPU)" using l by (auto simp: linked_def)
  have 1: "linked NCPU (X - {b}) nx1 pv1 L1"
    unfolding nx1 pv1 L1 by (rule linked_remove [OF l h Lh])
  have "linked NCPU (insert b (X - {b})) (nx1(b := nx1 h', h' := b)) (pv1(b := h', nx1 h' := b))
           (L1(h' := b # L1 h'))"
    by (rule linked_push [OF 1 h' _ bS]) simp
  moreover have "insert b (X - {b}) = X" using bX by auto
  ultimately show ?thesis by simp
qed

lemma dll_tail: "dll nx pv h xs \<Longrightarrow> pv h = last (h # xs)"
  by (auto simp: dll_def hd_rev_last dest!: path_hd)

lemma dll_head: "dll nx pv h xs \<Longrightarrow> nx h = hd (xs @ [h])"
  by (auto simp: dll_def dest!: path_hd)

lemma dll_tail_empty:
  assumes "dll nx pv h xs"
  shows "pv h = h \<longleftrightarrow> xs = []"
proof (cases xs rule: rev_cases)
  case Nil
  with dll_tail [OF assms] show ?thesis by simp
next
  case (snoc ys y)
  with assms have "y \<noteq> h" by (auto simp: dll_def)
  with dll_tail [OF assms] snoc show ?thesis by simp
qed

lemma dll_tail_last: "dll nx pv h xs \<Longrightarrow> xs \<noteq> [] \<Longrightarrow> pv h = last xs"
  by (simp add: dll_tail)

lemma steal_find:
  "mem s = m \<Longrightarrow> disk s = d \<Longrightarrow>
   \<exists>s'. mem s' = m \<and> disk s' = d \<and>
     steal pd ident cpu dv bn ncs s =
       (case find (\<lambda>nc. nc \<noteq> cpu \<and> prv m (Freelist nc) \<noteq> Freelist nc) ncs of
          None \<Rightarrow> Inl (Panic ''bget: no buffers'')
        | Some nc \<Rightarrow> recycle pd ident nc dv bn (prv m (Freelist nc)) s')"
proof (induction ncs arbitrary: s)
  case Nil
  then show ?case by (intro exI [of _ s]) (simp add: Let_def)
next
  case (Cons nc ncs)
  show ?case
  proof (cases "nc \<noteq> cpu \<and> prv m (Freelist nc) \<noteq> Freelist nc")
    case True
    with Cons.prems have "steal pd ident cpu dv bn (nc # ncs) s =
        recycle pd ident nc dv bn (prv m (Freelist nc)) (acquire (Freelk nc) s)"
      by (simp add: Let_def read_mem)
    with True Cons.prems show ?thesis
      by (intro exI [of _ "acquire (Freelk nc) s"]) simp
  next
    case False
    show ?thesis
    proof (cases "nc = cpu")
      case True
      with Cons.IH [of s] Cons.prems show ?thesis by simp
    next
      case ne: False
      with False have "prv m (Freelist nc) = Freelist nc" by simp
      with ne Cons.IH [of "release (Freelk nc) (acquire (Freelk nc) s)"] Cons.prems
      show ?thesis
        by (simp add: Let_def read_mem)
    qed
  qed
qed

lemma find_pool_order:
  "find P (pool_order NCPU cpu) =
     (if P cpu then Some cpu else find (\<lambda>nc. nc \<noteq> cpu \<and> P nc) [0..<NCPU])"
proof -
  have "find P (filter Q xs) = find (\<lambda>x. Q x \<and> P x) xs" for Q and xs :: "nat list"
    by (induction xs) auto
  then show ?thesis by (simp add: pool_order_def)
qed

lemma bget_scan:
  "bget NCPU pd cpu ticks dv bn s =
     (case lookup s dv bn of
        None \<Rightarrow> None
      | Some (Some b) \<Rightarrow>
          Some (case acquiresleep pd b
                  (release (Headlk (hash dv bn))
                    (store_timestamp b ticks
                      (store_refcnt b (refcnt (mem s b) + 1) (acquire (Headlk (hash dv bn)) s)))) of
                  Inl f \<Rightarrow> Inl f
                | Inr s \<Rightarrow> Inr (b, s))
      | Some None \<Rightarrow>
          Some (let s = acquire (Freelk cpu) (push_off (acquire (Headlk (hash dv bn)) s));
                    b = prev (mem s (Freelist cpu))
                in if b \<noteq> Freelist cpu then recycle pd (hash dv bn) cpu dv bn b s
                   else steal pd (hash dv bn) cpu dv bn [0..<NCPU] (release (Freelk cpu) s)))"
  by (simp add: bget_def lookup_def Let_def split: option.splits)

lemma bget_miss:
  assumes "lookup s dv bn = Some None"
  shows "\<exists>s'. mem s' = mem s \<and> disk s' = disk s \<and>
     bget NCPU pd cpu ticks dv bn s =
       Some (case victim NCPU cpu (mem s) of
               None \<Rightarrow> Inl (Panic ''bget: no buffers'')
             | Some (c, b) \<Rightarrow> recycle pd (hash dv bn) c dv bn b s')"
proof (cases "prv (mem s) (Freelist cpu) \<noteq> Freelist cpu")
  case True
  then have "victim NCPU cpu (mem s) = Some (cpu, prv (mem s) (Freelist cpu))"
    by (simp add: victim_def find_pool_order read_mem)
  with True assms show ?thesis
    by (intro exI [of _ "acquire (Freelk cpu) (push_off (acquire (Headlk (hash dv bn)) s))"])
       (simp add: bget_scan Let_def read_mem)
next
  case False
  let ?s = "release (Freelk cpu)
     (acquire (Freelk cpu) (push_off (acquire (Headlk (hash dv bn)) s)))"
  have "mem ?s = mem s" "disk ?s = disk s" by simp_all
  from steal_find [OF this, of pd "hash dv bn" cpu dv bn "[0..<NCPU]"]
  obtain s' where s': "mem s' = mem s" "disk s' = disk s"
    "steal pd (hash dv bn) cpu dv bn [0..<NCPU] ?s =
       (case find (\<lambda>nc. nc \<noteq> cpu \<and> prv (mem s) (Freelist nc) \<noteq> Freelist nc) [0..<NCPU] of
          None \<Rightarrow> Inl (Panic ''bget: no buffers'')
        | Some nc \<Rightarrow> recycle pd (hash dv bn) nc dv bn (prv (mem s) (Freelist nc)) s')"
    by blast
  have "victim NCPU cpu (mem s) =
     (case find (\<lambda>nc. nc \<noteq> cpu \<and> prv (mem s) (Freelist nc) \<noteq> Freelist nc) [0..<NCPU] of
        None \<Rightarrow> None | Some c \<Rightarrow> Some (c, prv (mem s) (Freelist c)))"
    using False by (simp add: victim_def find_pool_order read_mem cong: option.case_cong)
  with False assms s' show ?thesis
    by (intro exI [of _ s']) (simp add: bget_scan Let_def read_mem split: option.splits)
qed

subsection \<open>The invariant\<close>

lemma cache_invI:
  assumes "linked NCPU (Buf ` {..<NBUF}) (nxt (mem s)) (prv (mem s)) L"
    "\<And>c x. c < NCPU \<Longrightarrow> x \<in> set (L (Freelist c)) \<Longrightarrow> \<not> locked (lock (pay (mem s) x))"
    "\<And>i x. i < HASHSIZE \<Longrightarrow> x \<in> set (L (Head i)) \<Longrightarrow>
       hash (dev (pay (mem s) x)) (blockno (pay (mem s) x)) = i"
  shows "cache_inv NBUF NCPU s L"
  using assms by (simp add: cache_inv_def read_mem)

lemma cache_invD:
  assumes "cache_inv NBUF NCPU s L"
  shows "linked NCPU (Buf ` {..<NBUF}) (nxt (mem s)) (prv (mem s)) L"
    "\<And>c x. c < NCPU \<Longrightarrow> x \<in> set (L (Freelist c)) \<Longrightarrow> \<not> locked (lock (pay (mem s) x))"
    "\<And>i x. i < HASHSIZE \<Longrightarrow> x \<in> set (L (Head i)) \<Longrightarrow>
       hash (dev (pay (mem s) x)) (blockno (pay (mem s) x)) = i"
  using assms by (simp_all add: cache_inv_def read_mem)

lemma free_inv_pay:
  "free_inv NCPU s L \<longleftrightarrow> (\<forall>c<NCPU. \<forall>x \<in> set (L (Freelist c)). refcnt (pay (mem s) x) = 0)"
  by (simp add: free_inv_def read_mem)

lemma inv_members:
  assumes "cache_inv NBUF NCPU s L" "h \<in> set (sentinels NCPU)"
  shows "members (mem s) h = Some (L h)" "members_back (mem s) h = Some (rev (L h))"
  using dll_members [OF linkedD(1) [OF cache_invD(1) [OF assms(1)] assms(2)]] by simp_all

lemma inv_lookup:
  assumes "cache_inv NBUF NCPU s L"
  shows "lookup s dv bn =
     Some (find (\<lambda>b. dev (mem s b) = dv \<and> blockno (mem s b) = bn) (L (Head (hash dv bn))))"
proof -
  have "dll (nxt (mem s)) (prv (mem s)) (Head (hash dv bn)) (L (Head (hash dv bn)))"
    by (rule linkedD(1) [OF cache_invD(1) [OF assms]]) (simp add: hash_less)
  then have "path (nxt (mem s)) (Head (hash dv bn)) (L (Head (hash dv bn))) (Head (hash dv bn))"
    "Head (hash dv bn) \<notin> set (L (Head (hash dv bn)))"
    by (auto simp: dll_def)
  from scan_path [OF this] show ?thesis
    by (simp add: lookup_def read_mem)
qed

lemma inv_victim:
  assumes inv: "cache_inv NBUF NCPU s L" and cpu: "cpu < NCPU"
  shows "victim NCPU cpu (mem s) =
     (case find (\<lambda>c. L (Freelist c) \<noteq> []) (pool_order NCPU cpu) of
        None \<Rightarrow> None
      | Some c \<Rightarrow> Some (c, last (L (Freelist c))))"
proof -
  have d: "dll (nxt (mem s)) (prv (mem s)) (Freelist c) (L (Freelist c))" if "c < NCPU" for c
    by (rule linkedD(1) [OF cache_invD(1) [OF inv]]) (simp add: that)
  have in_order: "c < NCPU" if "c \<in> set (pool_order NCPU cpu)" for c
    using that cpu by (auto simp: pool_order_def)
  have "find (\<lambda>c. prev (mem s (Freelist c)) \<noteq> Freelist c) (pool_order NCPU cpu) =
        find (\<lambda>c. L (Freelist c) \<noteq> []) (pool_order NCPU cpu)"
    by (rule find_cong [OF refl]) (simp add: read_mem dll_tail_empty [OF d] in_order)
  moreover have "prev (mem s (Freelist c)) = last (L (Freelist c))"
    if "find (\<lambda>c. L (Freelist c) \<noteq> []) (pool_order NCPU cpu) = Some c" for c
  proof -
    from that have "c \<in> set (pool_order NCPU cpu)" "L (Freelist c) \<noteq> []"
      by (auto simp: find_Some_iff in_set_conv_nth)
    with dll_tail_last [OF d [OF in_order]] show ?thesis by (simp add: read_mem)
  qed
  ultimately show ?thesis
    by (simp add: victim_def split: option.splits)
qed

lemma bget_hit:
  assumes hit: "lookup s dv bn = Some (Some b)"
  shows "\<exists>s1. bget NCPU pd cpu ticks dv bn s =
        Some (case acquiresleep pd b s1 of Inl f \<Rightarrow> Inl f | Inr s' \<Rightarrow> Inr (b, s')) \<and>
      nxt (mem s1) = nxt (mem s) \<and> prv (mem s1) = prv (mem s) \<and>
      pay (mem s1) = (pay (mem s))
        (b := (pay (mem s) b)\<lparr>refcnt := refcnt (mem s b) + 1, timestamp := ticks\<rparr>) \<and>
      disk s1 = disk s \<and>
      trace s1 = trace s @ [Acquire (Headlk (hash dv bn)), Store b F_refcnt,
        Store b F_timestamp, Release (Headlk (hash dv bn))]"
  using hit
  by (intro exI [of _ "release (Headlk (hash dv bn))
                    (store_timestamp b ticks
                      (store_refcnt b (refcnt (mem s b) + 1) (acquire (Headlk (hash dv bn)) s)))"])
     (simp add: bget_scan effect read_mem)

lemma inv_victim_Some:
  assumes inv: "cache_inv NBUF NCPU s L" and cpu: "cpu < NCPU"
    and v: "victim NCPU cpu (mem s) = Some (c, b)"
  shows "c < NCPU" "L (Freelist c) = butlast (L (Freelist c)) @ [b]"
proof -
  from v have f: "find (\<lambda>c. L (Freelist c) \<noteq> []) (pool_order NCPU cpu) = Some c"
    and b: "b = last (L (Freelist c))"
    by (auto simp: inv_victim [OF inv cpu] split: option.splits)
  from f have c: "c \<in> set (pool_order NCPU cpu)" and ne: "L (Freelist c) \<noteq> []"
    by (auto simp: find_Some_iff in_set_conv_nth)
  from c cpu show "c < NCPU" by (auto simp: pool_order_def)
  from ne b show "L (Freelist c) = butlast (L (Freelist c)) @ [b]" by simp
qed

lemma inv_victim_None:
  assumes inv: "cache_inv NBUF NCPU s L" and cpu: "cpu < NCPU"
  shows "victim NCPU cpu (mem s) = None \<longleftrightarrow> (\<forall>c<NCPU. L (Freelist c) = [])"
proof -
  have "set (pool_order NCPU cpu) = {..<NCPU}"
    using cpu by (auto simp: pool_order_def)
  then have "find (\<lambda>c. L (Freelist c) \<noteq> []) (pool_order NCPU cpu) = None \<longleftrightarrow>
      (\<forall>c<NCPU. L (Freelist c) = [])"
    by (auto simp: find_None_iff)
  moreover have "victim NCPU cpu (mem s) = None \<longleftrightarrow>
      find (\<lambda>c. L (Freelist c) \<noteq> []) (pool_order NCPU cpu) = None"
    by (cases "find (\<lambda>c. L (Freelist c) \<noteq> []) (pool_order NCPU cpu)")
       (simp_all add: inv_victim [OF inv cpu])
  ultimately show ?thesis by simp
qed

lemma inv_victim_own:
  assumes inv: "cache_inv NBUF NCPU s L" and cpu: "cpu < NCPU"
    and ne: "L (Freelist cpu) \<noteq> []"
  shows "victim NCPU cpu (mem s) = Some (cpu, last (L (Freelist cpu)))"
  using ne by (simp add: inv_victim [OF inv cpu] find_pool_order)

lemma bget_miss_inv:
  assumes inv: "cache_inv NBUF NCPU s L" and cpu: "cpu < NCPU"
    and miss: "lookup s dv bn = Some None"
    and v: "victim NCPU cpu (mem s) = Some (c, b)"
    and rc: "refcnt (mem s b) = 0"
  shows "\<exists>s'. bget NCPU pd cpu ticks dv bn s = Some (Inr (b, s')) \<and>
     cache_inv NBUF NCPU s'
       ((L(Freelist c := butlast (L (Freelist c))))
          (Head (hash dv bn) := b # L (Head (hash dv bn)))) \<and>
     pay (mem s') = (pay (mem s))(b := (pay (mem s) b)\<lparr>dev := dv, blockno := bn, valid := 0,
        refcnt := 1, lock := \<lparr>locked = True, pid = pd\<rparr>\<rparr>) \<and>
     disk s' = disk s"
proof -
  let ?h = "Freelist c" and ?h' = "Head (hash dv bn)"
  let ?ys = "butlast (L (Freelist c))"
  let ?L1 = "L(?h := ?ys)"
  let ?L' = "?L1(?h' := b # L ?h')"
  note l = cache_invD(1) [OF inv]
  note c = inv_victim_Some(1) [OF inv cpu v]
  have Lh: "L ?h = ?ys @ b # []"
    using inv_victim_Some(2) [OF inv cpu v] by simp
  have h: "?h \<in> set (sentinels NCPU)" and h': "?h' \<in> set (sentinels NCPU)"
    using c by (simp_all add: hash_less)
  have bh: "b \<in> set (L ?h)" by (subst Lh) simp
  have d: "dll (nxt (mem s)) (prv (mem s)) ?h (?ys @ b # [])"
    using linkedD(1) [OF l h] Lh by simp
  have bS: "b \<notin> set (sentinels NCPU)"
    using linkedD(3) [OF l h] bh by auto
  with h' have bh': "b \<noteq> ?h'" by auto
  have "prv (mem s) b \<in> insert ?h (set ?ys)"
    using dll_prev [OF d] last_in_cons [of ?h ?ys] by simp
  moreover have "b \<notin> insert ?h (set ?ys)"
    using d by (auto simp: dll_def)
  ultimately have pb: "prv (mem s) b \<noteq> b" by auto
  have ul: "\<not> locked (lock (mem s b))"
    using cache_invD(2) [OF inv c bh] by (simp add: read_mem)
  from bget_miss [OF miss, of NCPU pd cpu ticks] v
  obtain s0 where s0: "mem s0 = mem s" "disk s0 = disk s"
    "bget NCPU pd cpu ticks dv bn s = Some (recycle pd (hash dv bn) c dv bn b s0)"
    by auto
  let ?nx1 = "(nxt (mem s))(prv (mem s) b := nxt (mem s) b)"
  let ?pv1 = "(prv (mem s))(nxt (mem s) b := prv (mem s) b)"
  from recycle_effect [of s0 b "hash dv bn" pd c dv bn] pb bh' rc ul s0(1,2)
  obtain s' where s': "recycle pd (hash dv bn) c dv bn b s0 = Inr (b, s')"
    "nxt (mem s') = ?nx1(b := ?nx1 ?h', ?h' := b)"
    "prv (mem s') = ?pv1(b := ?h', ?nx1 ?h' := b)"
    "pay (mem s') = (pay (mem s))(b := (pay (mem s) b)\<lparr>dev := dv, blockno := bn, valid := 0,
        refcnt := 1, lock := \<lparr>locked = True, pid = pd\<rparr>\<rparr>)"
    "disk s' = disk s"
    by auto
  have "linked NCPU (Buf ` {..<NBUF}) (?nx1(b := ?nx1 ?h', ?h' := b))
          (?pv1(b := ?h', ?nx1 ?h' := b)) (?L1(?h' := b # ?L1 ?h'))"
    by (rule linked_move [OF l h Lh h' refl refl]) simp
  then have l': "linked NCPU (Buf ` {..<NBUF}) (nxt (mem s')) (prv (mem s')) ?L'"
    by (simp add: s'(2,3))
  have nb: "x \<noteq> b" if "x \<in> set (?L1 k)" "k \<in> set (sentinels NCPU)" for x k
  proof (cases "k = ?h")
    case True
    with that d show ?thesis by (auto simp: dll_def)
  next
    case False
    with that linked_disjoint [OF l h that(2) _ bh] show ?thesis by auto
  qed
  have sub: "set (?L1 k) \<subseteq> set (L k)" for k
    by (auto dest: in_set_butlastD)
  have "cache_inv NBUF NCPU s' ?L'"
  proof (rule cache_invI [OF l'])
    fix c' x assume c': "c' < NCPU" and x: "x \<in> set (?L' (Freelist c'))"
    then have x1: "x \<in> set (?L1 (Freelist c'))" by simp
    from nb [OF x1] c' have "x \<noteq> b" by simp
    moreover from x1 sub have "x \<in> set (L (Freelist c'))" by blast
    ultimately show "\<not> locked (lock (pay (mem s') x))"
      using cache_invD(2) [OF inv c'] by (simp add: s'(4))
  next
    fix i x assume i: "i < HASHSIZE" and x: "x \<in> set (?L' (Head i))"
    show "hash (dev (pay (mem s') x)) (blockno (pay (mem s') x)) = i"
    proof (cases "x = b")
      case True
      have "i = hash dv bn"
      proof (rule ccontr)
        assume "i \<noteq> hash dv bn"
        with x have "x \<in> set (?L1 (Head i))" by simp
        from nb [OF this] i True show False by simp
      qed
      with True show ?thesis by (simp add: s'(4))
    next
      case False
      with x have "x \<in> set (L (Head i))" by (auto split: if_splits)
      with False cache_invD(3) [OF inv i] show ?thesis by (simp add: s'(4))
    qed
  qed
  with s0(3) s' show ?thesis by auto
qed

lemma inv_indexed_not_free:
  assumes inv: "cache_inv NBUF NCPU s L" and i: "i < HASHSIZE" and b: "b \<in> set (L (Head i))"
    and c: "c < NCPU"
  shows "b \<notin> set (L (Freelist c))"
  using linked_disjoint [OF cache_invD(1) [OF inv], of "Head i" "Freelist c" b] i c b by simp

lemma cache_inv_pay:
  assumes inv: "cache_inv NBUF NCPU s L"
    and n: "nxt (mem s') = nxt (mem s)" and p: "prv (mem s') = prv (mem s)"
    and y: "pay (mem s') = (pay (mem s))(b := r)"
    and id: "dev r = dev (pay (mem s) b)" "blockno r = blockno (pay (mem s) b)"
    and lk: "locked (lock r) \<Longrightarrow> locked (lock (pay (mem s) b)) \<or> (\<forall>c<NCPU. b \<notin> set (L (Freelist c)))"
  shows "cache_inv NBUF NCPU s' L"
proof (rule cache_invI)
  show "linked NCPU (Buf ` {..<NBUF}) (nxt (mem s')) (prv (mem s')) L"
    using cache_invD(1) [OF inv] by (simp add: n p)
next
  fix c x assume "c < NCPU" "x \<in> set (L (Freelist c))"
  with cache_invD(2) [OF inv this] lk show "\<not> locked (lock (pay (mem s') x))"
    by (auto simp: y)
next
  fix i x assume "i < HASHSIZE" "x \<in> set (L (Head i))"
  with cache_invD(3) [OF inv this] id show "hash (dev (pay (mem s') x)) (blockno (pay (mem s') x)) = i"
    by (auto simp: y)
qed

lemma free_inv_upd:
  assumes f: "free_inv NCPU s L"
    and y: "pay (mem s') = (pay (mem s))(b := r)"
    and rc: "refcnt r \<noteq> 0 \<Longrightarrow> \<forall>c<NCPU. b \<notin> set (L' (Freelist c))"
    and sub: "\<And>c. c < NCPU \<Longrightarrow> set (L' (Freelist c)) \<subseteq> insert b (set (L (Freelist c)))"
  shows "free_inv NCPU s' L'"
  unfolding free_inv_pay
proof (intro allI impI ballI)
  fix c x assume c: "c < NCPU" and x: "x \<in> set (L' (Freelist c))"
  show "refcnt (pay (mem s') x) = 0"
  proof (cases "x = b")
    case True
    with rc c x show ?thesis by (auto simp: y)
  next
    case False
    with sub [OF c] x have "x \<in> set (L (Freelist c))" by auto
    with f c False show ?thesis by (simp add: free_inv_pay y)
  qed
qed

lemma bget_hit_inv:
  assumes inv: "cache_inv NBUF NCPU s L" and hit: "lookup s dv bn = Some (Some b)"
  shows "b \<in> set (L (Head (hash dv bn)))"
    "dev (mem s b) = dv" "blockno (mem s b) = bn"
    "\<not> locked (lock (mem s b)) \<Longrightarrow>
     \<exists>s'. bget NCPU pd cpu ticks dv bn s = Some (Inr (b, s')) \<and>
       cache_inv NBUF NCPU s' L \<and>
       nxt (mem s') = nxt (mem s) \<and> prv (mem s') = prv (mem s) \<and>
       pay (mem s') = (pay (mem s))(b := (pay (mem s) b)
          \<lparr>refcnt := refcnt (mem s b) + 1, timestamp := ticks,
            lock := \<lparr>locked = True, pid = pd\<rparr>\<rparr>) \<and>
       disk s' = disk s \<and>
       trace s' = trace s @ [Acquire (Headlk (hash dv bn)), Store b F_refcnt,
         Store b F_timestamp, Release (Headlk (hash dv bn)), Acquiresleep b pd]"
proof -
  from hit have f: "find (\<lambda>b. dev (mem s b) = dv \<and> blockno (mem s b) = bn)
      (L (Head (hash dv bn))) = Some b"
    by (simp add: inv_lookup [OF inv])
  then show b: "b \<in> set (L (Head (hash dv bn)))" and "dev (mem s b) = dv" "blockno (mem s b) = bn"
    by (auto simp: find_Some_iff)
  assume ul: "\<not> locked (lock (mem s b))"
  from bget_hit [OF hit, of NCPU pd cpu ticks] obtain s1 where s1:
    "bget NCPU pd cpu ticks dv bn s =
        Some (case acquiresleep pd b s1 of Inl f \<Rightarrow> Inl f | Inr s' \<Rightarrow> Inr (b, s'))"
    "nxt (mem s1) = nxt (mem s)" "prv (mem s1) = prv (mem s)"
    "pay (mem s1) = (pay (mem s))
        (b := (pay (mem s) b)\<lparr>refcnt := refcnt (mem s b) + 1, timestamp := ticks\<rparr>)"
    "disk s1 = disk s"
    "trace s1 = trace s @ [Acquire (Headlk (hash dv bn)), Store b F_refcnt,
        Store b F_timestamp, Release (Headlk (hash dv bn))]"
    by blast
  from ul have "\<not> locked (lock (pay (mem s1) b))"
    by (simp add: s1(4) read_mem)
  from acquiresleep_views [OF this, of pd] obtain s' where s':
    "acquiresleep pd b s1 = Inr s'" "nxt (mem s') = nxt (mem s1)" "prv (mem s') = prv (mem s1)"
    "pay (mem s') = (pay (mem s1))(b := (pay (mem s1) b)\<lparr>lock := \<lparr>locked = True, pid = pd\<rparr>\<rparr>)"
    "disk s' = disk s1" "trace s' = trace s1 @ [Acquiresleep b pd]"
    by blast
  have y: "pay (mem s') = (pay (mem s))(b := (pay (mem s) b)
          \<lparr>refcnt := refcnt (mem s b) + 1, timestamp := ticks,
            lock := \<lparr>locked = True, pid = pd\<rparr>\<rparr>)"
    by (simp add: s'(4) s1(4))
  have "cache_inv NBUF NCPU s' L"
    by (rule cache_inv_pay [OF inv _ _ y])
       (use inv_indexed_not_free [OF inv hash_less b] in \<open>simp_all add: s' s1\<close>)
  with s1 s' y show "\<exists>s'. bget NCPU pd cpu ticks dv bn s = Some (Inr (b, s')) \<and>
       cache_inv NBUF NCPU s' L \<and>
       nxt (mem s') = nxt (mem s) \<and> prv (mem s') = prv (mem s) \<and>
       pay (mem s') = (pay (mem s))(b := (pay (mem s) b)
          \<lparr>refcnt := refcnt (mem s b) + 1, timestamp := ticks,
            lock := \<lparr>locked = True, pid = pd\<rparr>\<rparr>) \<and>
       disk s' = disk s \<and>
       trace s' = trace s @ [Acquire (Headlk (hash dv bn)), Store b F_refcnt,
         Store b F_timestamp, Release (Headlk (hash dv bn)), Acquiresleep b pd]"
    by simp
qed

subsection \<open>brelse\<close>

lemma brelse_panic: "\<not> holdingsleep pd b s \<Longrightarrow> brelse pd cpu b s = Inl (Panic ''brelse'')"
  by (simp add: brelse_def)

lemma brelse_keep:
  assumes "holdingsleep pd b s" "refcnt (mem s b) \<noteq> 1"
  shows "\<exists>s'. brelse pd cpu b s = Inr s' \<and>
     nxt (mem s') = nxt (mem s) \<and> prv (mem s') = prv (mem s) \<and>
     pay (mem s') = (pay (mem s))(b := (pay (mem s) b)
        \<lparr>lock := \<lparr>locked = False, pid = 0\<rparr>, refcnt := refcnt (mem s b) - 1\<rparr>) \<and>
     disk s' = disk s \<and>
     trace s' = trace s @ [Releasesleep b,
       Acquire (Headlk (hash (dev (mem s b)) (blockno (mem s b)))), Store b F_refcnt,
       Release (Headlk (hash (dev (mem s b)) (blockno (mem s b))))]"
  using assms by (simp add: brelse_def Let_def effect read_mem)

lemma brelse_move:
  assumes hold: "holdingsleep pd b s" and rc: "refcnt (mem s b) = 1"
    and nb: "nxt (mem s) b \<noteq> b" and bh: "b \<noteq> Freelist cpu"
  shows "\<exists>s'. brelse pd cpu b s = Inr s' \<and>
     nxt (mem s') = ((nxt (mem s))(prv (mem s) b := nxt (mem s) b))
        (b := ((nxt (mem s))(prv (mem s) b := nxt (mem s) b)) (Freelist cpu), Freelist cpu := b) \<and>
     prv (mem s') = ((prv (mem s))(nxt (mem s) b := prv (mem s) b))
        (b := Freelist cpu,
         ((nxt (mem s))(prv (mem s) b := nxt (mem s) b)) (Freelist cpu) := b) \<and>
     pay (mem s') = (pay (mem s))(b := (pay (mem s) b)
        \<lparr>lock := \<lparr>locked = False, pid = 0\<rparr>, refcnt := 0\<rparr>) \<and>
     disk s' = disk s \<and>
     trace s' = trace s @ [Releasesleep b,
       Acquire (Headlk (hash (dev (mem s b)) (blockno (mem s b)))), Store b F_refcnt,
       Push_off, Acquire (Freelk cpu),
       Store (nxt (mem s) b) F_prev, Store (prv (mem s) b) F_next,
       Store b F_next, Store b F_prev,
       Store (((nxt (mem s))(prv (mem s) b := nxt (mem s) b)) (Freelist cpu)) F_prev,
       Store (Freelist cpu) F_next,
       Release (Freelk cpu), Pop_off,
       Release (Headlk (hash (dev (mem s b)) (blockno (mem s b))))]"
proof -
  define s1 where "s1 = store_refcnt b (refcnt (mem s b) - 1)
     (acquire (Headlk (hash (dev (mem s b)) (blockno (mem s b)))) (releasesleep b s))"
  define s2 where "s2 =
       (let s = push_off s1;
            s = acquire (Freelk cpu) s;
            s = store_prev (next (mem s b)) (prev (mem s b)) s;
            s = store_next (prev (mem s b)) (next (mem s b)) s;
            s = store_next b (next (mem s (Freelist cpu))) s;
            s = store_prev b (Freelist cpu) s;
            s = store_prev (next (mem s (Freelist cpu))) b s;
            s = store_next (Freelist cpu) b s;
            s = release (Freelk cpu) s;
            s = pop_off s
        in s)"
  have n1: "nxt (mem s1) = nxt (mem s)" and p1: "prv (mem s1) = prv (mem s)"
    and y1: "pay (mem s1) = (pay (mem s))(b := (pay (mem s) b)
        \<lparr>lock := \<lparr>locked = False, pid = 0\<rparr>, refcnt := 0\<rparr>)"
    and d1: "disk s1 = disk s"
    and t1: "trace s1 = trace s @ [Releasesleep b,
       Acquire (Headlk (hash (dev (mem s b)) (blockno (mem s b)))), Store b F_refcnt]"
    using rc by (simp_all add: s1_def effect read_mem)
  have r: "brelse pd cpu b s =
      Inr (release (Headlk (hash (dev (mem s b)) (blockno (mem s b)))) s2)"
    using hold rc unfolding brelse_def s2_def s1_def Let_def
    by (simp add: effect read_mem)
  have n2: "nxt (mem s2) = ((nxt (mem s))(prv (mem s) b := nxt (mem s) b))
        (b := ((nxt (mem s))(prv (mem s) b := nxt (mem s) b)) (Freelist cpu), Freelist cpu := b)"
    using nb bh unfolding s2_def Let_def
    by (simp add: read_mem effect n1 p1 fun_upd_other del: fun_upd_apply)
  have p2: "prv (mem s2) = ((prv (mem s))(nxt (mem s) b := prv (mem s) b))
        (b := Freelist cpu,
         ((nxt (mem s))(prv (mem s) b := nxt (mem s) b)) (Freelist cpu) := b)"
    using nb bh unfolding s2_def Let_def
    by (simp add: read_mem effect n1 p1 fun_upd_other del: fun_upd_apply)
  have y2: "pay (mem s2) = pay (mem s1)" and d2: "disk s2 = disk s1"
    unfolding s2_def Let_def by (simp_all add: effect)
  have t2: "trace s2 = trace s1 @ [Push_off, Acquire (Freelk cpu),
       Store (nxt (mem s) b) F_prev, Store (prv (mem s) b) F_next,
       Store b F_next, Store b F_prev,
       Store (((nxt (mem s))(prv (mem s) b := nxt (mem s) b)) (Freelist cpu)) F_prev,
       Store (Freelist cpu) F_next,
       Release (Freelk cpu), Pop_off]"
    using nb bh unfolding s2_def Let_def
    by (simp add: read_mem effect n1 p1 fun_upd_other del: fun_upd_apply)
  show ?thesis
    by (simp add: r n2 p2 y2 y1 d2 d1 t2 t1)
qed

lemma inv_locked_indexed:
  assumes inv: "cache_inv NBUF NCPU s L" and i: "i < NBUF"
    and lk: "locked (lock (mem s (Buf i)))"
  shows "Buf i \<in> set (L (Head (hash (dev (mem s (Buf i))) (blockno (mem s (Buf i))))))"
proof -
  note l = cache_invD(1) [OF inv]
  from linked_owner [OF l, of "Buf i"] i obtain h where
    h: "h \<in> set (sentinels NCPU)" "Buf i \<in> set (L h)" by auto
  from h(1) consider j where "j < HASHSIZE" "h = Head j" | c where "c < NCPU" "h = Freelist c"
    by (auto simp: sentinels_def)
  then show ?thesis
  proof cases
    case 1
    with cache_invD(3) [OF inv 1(1), of "Buf i"] h(2) show ?thesis
      by (simp add: read_mem)
  next
    case 2
    with cache_invD(2) [OF inv 2(1), of "Buf i"] h(2) lk show ?thesis
      by (simp add: read_mem)
  qed
qed

lemma remove1_split: "distinct (ys @ b # zs) \<Longrightarrow> remove1 b (ys @ b # zs) = ys @ zs"
  by (induction ys) auto

lemma brelse_inv:
  assumes inv: "cache_inv NBUF NCPU s L" and i: "i < NBUF" and cpu: "cpu < NCPU"
    and hold: "holdingsleep pd (Buf i) s"
  defines "b \<equiv> Buf i"
  defines "h \<equiv> Head (hash (dev (mem s (Buf i))) (blockno (mem s (Buf i))))"
  defines "L' \<equiv> (if refcnt (mem s (Buf i)) = 1
     then (L(h := remove1 b (L h)))(Freelist cpu := b # L (Freelist cpu)) else L)"
  shows "\<exists>s'. brelse pd cpu b s = Inr s' \<and> cache_inv NBUF NCPU s' L' \<and>
     pay (mem s') = (pay (mem s))(b := (pay (mem s) b)
        \<lparr>lock := \<lparr>locked = False, pid = 0\<rparr>, refcnt := refcnt (mem s b) - 1\<rparr>) \<and>
     disk s' = disk s"
    and "b \<in> set (L h)"
proof -
  note l = cache_invD(1) [OF inv]
  from hold have lk: "locked (lock (mem s (Buf i)))" by (simp add: holdingsleep_def)
  show bh: "b \<in> set (L h)"
    unfolding b_def h_def by (rule inv_locked_indexed [OF inv i lk])
  have hS: "h \<in> set (sentinels NCPU)" by (simp add: h_def hash_less)
  have fS: "Freelist cpu \<in> set (sentinels NCPU)" using cpu by simp
  show "\<exists>s'. brelse pd cpu b s = Inr s' \<and> cache_inv NBUF NCPU s' L' \<and>
     pay (mem s') = (pay (mem s))(b := (pay (mem s) b)
        \<lparr>lock := \<lparr>locked = False, pid = 0\<rparr>, refcnt := refcnt (mem s b) - 1\<rparr>) \<and>
     disk s' = disk s"
  proof (cases "refcnt (mem s b) = 1")
    case False
    from brelse_keep [OF hold [folded b_def] False, of cpu] obtain s' where s':
      "brelse pd cpu b s = Inr s'" "nxt (mem s') = nxt (mem s)" "prv (mem s') = prv (mem s)"
      "pay (mem s') = (pay (mem s))(b := (pay (mem s) b)
        \<lparr>lock := \<lparr>locked = False, pid = 0\<rparr>, refcnt := refcnt (mem s b) - 1\<rparr>)"
      "disk s' = disk s"
      by blast
    have "cache_inv NBUF NCPU s' L"
      by (rule cache_inv_pay [OF inv s'(2,3,4)]) simp_all
    with s' False show ?thesis by (auto simp: L'_def b_def)
  next
    case True
    from bh obtain ys zs where Lh: "L h = ys @ b # zs"
      by (auto simp: in_set_conv_decomp)
    have d: "dll (nxt (mem s)) (prv (mem s)) h (ys @ b # zs)"
      using linkedD(1) [OF l hS] Lh by simp
    have "nxt (mem s) b \<in> insert h (set zs)"
      using dll_next [OF d] hd_in_snoc [of zs h] by simp
    moreover have "b \<notin> insert h (set zs)"
      using d by (auto simp: dll_def)
    ultimately have nb: "nxt (mem s) b \<noteq> b" by auto
    have bf: "b \<noteq> Freelist cpu" by (simp add: b_def)
    let ?nx1 = "(nxt (mem s))(prv (mem s) b := nxt (mem s) b)"
    let ?pv1 = "(prv (mem s))(nxt (mem s) b := prv (mem s) b)"
    let ?f = "Freelist cpu"
    let ?L1 = "L(h := ys @ zs)"
    from brelse_move [OF hold [folded b_def] True nb bf] obtain s' where s':
      "brelse pd cpu b s = Inr s'"
      "nxt (mem s') = ?nx1(b := ?nx1 ?f, ?f := b)"
      "prv (mem s') = ?pv1(b := ?f, ?nx1 ?f := b)"
      "pay (mem s') = (pay (mem s))(b := (pay (mem s) b)
        \<lparr>lock := \<lparr>locked = False, pid = 0\<rparr>, refcnt := 0\<rparr>)"
      "disk s' = disk s"
      by blast
    have hf: "h \<noteq> ?f" by (simp add: h_def)
    have "remove1 b (L h) = ys @ zs"
      using linkedD(4) [OF l hS] Lh by (simp add: remove1_split)
    then have L': "L' = ?L1(?f := b # ?L1 ?f)"
      using True hf by (simp add: L'_def b_def)
    have "linked NCPU (Buf ` {..<NBUF}) (?nx1(b := ?nx1 ?f, ?f := b))
          (?pv1(b := ?f, ?nx1 ?f := b)) (?L1(?f := b # ?L1 ?f))"
      by (rule linked_move [OF l hS Lh fS refl refl]) simp
    then have l': "linked NCPU (Buf ` {..<NBUF}) (nxt (mem s')) (prv (mem s')) L'"
      by (simp add: s'(2,3) L')
    have "cache_inv NBUF NCPU s' L'"
    proof (rule cache_invI [OF l'])
      fix c x assume c: "c < NCPU" and x: "x \<in> set (L' (Freelist c))"
      show "\<not> locked (lock (pay (mem s') x))"
      proof (cases "x = b")
        case True
        then show ?thesis by (simp add: s'(4))
      next
        case False
        with x hf have "x \<in> set (L (Freelist c))"
          by (auto simp: L' h_def split: if_splits)
        with False cache_invD(2) [OF inv c] show ?thesis by (simp add: s'(4))
      qed
    next
      fix j x assume j: "j < HASHSIZE" and x: "x \<in> set (L' (Head j))"
      have xb: "x \<noteq> b"
      proof
        assume "x = b"
        with x have "b \<in> set (?L1 (Head j))" by (simp add: L')
        moreover have "b \<notin> set (ys @ zs)" using d by (auto simp: dll_def)
        ultimately have "Head j \<noteq> h" "b \<in> set (L (Head j))" by (auto split: if_splits)
        with linked_disjoint [OF l hS _ _ bh, of "Head j"] j show False by auto
      qed
      from x have "x \<in> set (L (Head j))"
        using Lh by (auto simp: L' split: if_splits)
      with xb cache_invD(3) [OF inv j] show "hash (dev (pay (mem s') x)) (blockno (pay (mem s') x)) = j"
        by (simp add: s'(4))
    qed
    with s' True show ?thesis by auto
  qed
qed

subsection \<open>Every call keeps the invariant\<close>

lemma recycle_Inr_refcnt: "recycle pd ident c dv bn b s = Inr r \<Longrightarrow> refcnt (mem s b) = 0"
  by (simp add: recycle_def split: if_splits)

lemma recycle_Inr_ptr: "recycle pd ident c dv bn b s = Inr (b', s') \<Longrightarrow> b' = b"
  by (auto simp: recycle_def Let_def split: if_splits sum.splits)

lemma recycle_panic:
  "refcnt (mem s b) \<noteq> 0 \<Longrightarrow>
   recycle pd ident c dv bn b s = Inl (Panic ''bget: freelist is not free!'')"
  by (simp add: recycle_def)

text \<open>What a call of bget that returns has done, in a state with the invariant.\<close>

lemma bget_step:
  assumes inv: "cache_inv NBUF NCPU s L" and cpu: "cpu < NCPU"
    and res: "bget NCPU pd cpu ticks dv bn s = Some (Inr (b, s'))"
  shows "\<exists>L' r. cache_inv NBUF NCPU s' L' \<and> (free_inv NCPU s L \<longrightarrow> free_inv NCPU s' L') \<and>
     b \<in> set (L' (Head (hash dv bn))) \<and>
     pay (mem s') = (pay (mem s))(b := r) \<and> disk s' = disk s \<and>
     dev r = dv \<and> blockno r = bn \<and> locked (lock r) \<and> pid (lock r) = pd"
proof (cases "find (\<lambda>b. dev (mem s b) = dv \<and> blockno (mem s b) = bn) (L (Head (hash dv bn)))")
  case (Some b0)
  then have hit: "lookup s dv bn = Some (Some b0)" by (simp add: inv_lookup [OF inv])
  note h = bget_hit_inv [OF inv hit]
  have ul: "\<not> locked (lock (mem s b0))"
  proof
    assume "locked (lock (mem s b0))"
    with bget_hit [OF hit, of NCPU pd cpu ticks] res show False
      by (auto simp: acquiresleep_def read_mem)
  qed
  from h(4) [OF ul, of pd cpu ticks] res obtain
    i': "cache_inv NBUF NCPU s' L" and b0: "b0 = b"
    and y: "pay (mem s') = (pay (mem s))(b := (pay (mem s) b)
          \<lparr>refcnt := refcnt (mem s b) + 1, timestamp := ticks,
            lock := \<lparr>locked = True, pid = pd\<rparr>\<rparr>)"
    and d: "disk s' = disk s"
    by auto
  have f: "free_inv NCPU s' L" if "free_inv NCPU s L"
    by (rule free_inv_upd [OF that y])
       (use inv_indexed_not_free [OF inv hash_less h(1)] b0 in auto)
  from i' f h(1,2,3) b0 y d show ?thesis
    by (intro exI [of _ L] exI [of _ "(pay (mem s) b)
          \<lparr>refcnt := refcnt (mem s b) + 1, timestamp := ticks,
            lock := \<lparr>locked = True, pid = pd\<rparr>\<rparr>"]) (simp add: read_mem)
next
  case None
  then have miss: "lookup s dv bn = Some None" by (simp add: inv_lookup [OF inv])
  from bget_miss [OF miss, of NCPU pd cpu ticks] obtain s0 where s0: "mem s0 = mem s"
    and g: "bget NCPU pd cpu ticks dv bn s =
       Some (case victim NCPU cpu (mem s) of
               None \<Rightarrow> Inl (Panic ''bget: no buffers'')
             | Some (c, b) \<Rightarrow> recycle pd (hash dv bn) c dv bn b s0)"
    by blast
  from g res obtain c b0 where v0: "victim NCPU cpu (mem s) = Some (c, b0)"
    and r0: "recycle pd (hash dv bn) c dv bn b0 s0 = Inr (b, s')"
    by (cases "victim NCPU cpu (mem s)") auto
  from recycle_Inr_ptr [OF r0] v0 r0 have
    v: "victim NCPU cpu (mem s) = Some (c, b)"
    and r: "recycle pd (hash dv bn) c dv bn b s0 = Inr (b, s')"
    by simp_all
  from recycle_Inr_refcnt [OF r] s0 have rc: "refcnt (mem s b) = 0" by simp
  let ?L' = "(L(Freelist c := butlast (L (Freelist c))))
          (Head (hash dv bn) := b # L (Head (hash dv bn)))"
  from bget_miss_inv [OF inv cpu miss v rc, of pd ticks] res have
    i': "cache_inv NBUF NCPU s' ?L'"
    and y: "pay (mem s') = (pay (mem s))(b := (pay (mem s) b)\<lparr>dev := dv, blockno := bn,
        valid := 0, refcnt := 1, lock := \<lparr>locked = True, pid = pd\<rparr>\<rparr>)"
    and d: "disk s' = disk s"
    by auto
  have nf: "b \<notin> set (?L' (Freelist c'))" if "c' < NCPU" for c'
    using inv_indexed_not_free [OF i' hash_less [of dv bn] _ that, of b] by simp
  have f: "free_inv NCPU s' ?L'" if "free_inv NCPU s L"
    by (rule free_inv_upd [OF that y]) (use nf in \<open>auto dest: in_set_butlastD\<close>)
  from i' f y d show ?thesis
    by (intro exI [of _ ?L'] exI [of _ "(pay (mem s) b)\<lparr>dev := dv, blockno := bn,
        valid := 0, refcnt := 1, lock := \<lparr>locked = True, pid = pd\<rparr>\<rparr>"]) simp
qed

lemma bread_step:
  assumes inv: "cache_inv NBUF NCPU s L" and cpu: "cpu < NCPU"
    and res: "bread NCPU pd cpu ticks dv bn s = Some (Inr (b, s'))"
  shows "\<exists>L'. cache_inv NBUF NCPU s' L' \<and> (free_inv NCPU s L \<longrightarrow> free_inv NCPU s' L')"
proof -
  from res obtain s1 where g: "bget NCPU pd cpu ticks dv bn s = Some (Inr (b, s1))"
    and s': "s' = (if valid (mem s1 b) = 0
                        then store_valid b 1 (virtio_disk_rw b False s1) else s1)"
    by (auto simp: bread_def Let_def split: option.splits sum.splits)
  from bget_step [OF inv cpu g] obtain L' where
    i1: "cache_inv NBUF NCPU s1 L'" and f1: "free_inv NCPU s L \<longrightarrow> free_inv NCPU s1 L'"
    and b: "b \<in> set (L' (Head (hash dv bn)))"
    by blast
  show ?thesis
  proof (cases "valid (mem s1 b) = 0")
    case False
    with s' i1 f1 show ?thesis by auto
  next
    case True
    with s' have n: "nxt (mem s') = nxt (mem s1)" and p: "prv (mem s') = prv (mem s1)"
      and y: "pay (mem s') = (pay (mem s1))(b := (pay (mem s1) b)
        \<lparr>data := disk s1 (dev (pay (mem s1) b), blockno (pay (mem s1) b)), valid := 1\<rparr>)"
      by (simp_all add: effect)
    have "cache_inv NBUF NCPU s' L'"
      by (rule cache_inv_pay [OF i1 n p y]) simp_all
    moreover have "free_inv NCPU s' L'" if "free_inv NCPU s1 L'"
      by (rule free_inv_upd [OF that y])
         (use inv_indexed_not_free [OF i1 hash_less b] in auto)
    ultimately show ?thesis using f1 by auto
  qed
qed

lemma brelse_step:
  assumes inv: "cache_inv NBUF NCPU s L" and i: "i < NBUF" and cpu: "cpu < NCPU"
    and res: "brelse pd cpu (Buf i) s = Inr s'"
  shows "\<exists>L'. cache_inv NBUF NCPU s' L' \<and> (free_inv NCPU s L \<longrightarrow> free_inv NCPU s' L')"
proof -
  from res have hold: "holdingsleep pd (Buf i) s"
    by (auto simp: brelse_def split: if_splits)
  let ?b = "Buf i"
  let ?h = "Head (hash (dev (mem s ?b)) (blockno (mem s ?b)))"
  let ?L' = "if refcnt (mem s ?b) = 1
     then (L(?h := remove1 ?b (L ?h)))(Freelist cpu := ?b # L (Freelist cpu)) else L"
  from brelse_inv [OF inv i cpu hold] res have i': "cache_inv NBUF NCPU s' ?L'"
    and y: "pay (mem s') = (pay (mem s))(?b := (pay (mem s) ?b)
        \<lparr>lock := \<lparr>locked = False, pid = 0\<rparr>, refcnt := refcnt (mem s ?b) - 1\<rparr>)"
    and bh: "?b \<in> set (L ?h)"
    by auto
  have f: "free_inv NCPU s' ?L'" if "free_inv NCPU s L"
  proof (rule free_inv_upd [OF that y])
    assume "refcnt (pay (mem s) ?b
        \<lparr>lock := \<lparr>locked = False, pid = 0\<rparr>, refcnt := refcnt (mem s ?b) - 1\<rparr>) \<noteq> 0"
    then have "refcnt (mem s ?b) \<noteq> 1" by auto
    with inv_indexed_not_free [OF inv hash_less bh]
    show "\<forall>c<NCPU. ?b \<notin> set (?L' (Freelist c))" by simp
  next
    fix c assume "c < NCPU"
    show "set (?L' (Freelist c)) \<subseteq> insert ?b (set (L (Freelist c)))"
      by auto
  qed
  with i' show ?thesis by blast
qed

lemma refcnt_step:
  assumes inv: "cache_inv NBUF NCPU s L"
    and n: "nxt (mem s') = nxt (mem s)" and p: "prv (mem s') = prv (mem s)"
    and y: "pay (mem s') = (pay (mem s))(b := (pay (mem s) b)\<lparr>refcnt := v\<rparr>)"
  shows "cache_inv NBUF NCPU s' L"
    "free_inv NCPU s L \<Longrightarrow> indexed s b \<Longrightarrow> free_inv NCPU s' L"
proof -
  show "cache_inv NBUF NCPU s' L"
    by (rule cache_inv_pay [OF inv n p y]) simp_all
  assume f: "free_inv NCPU s L" and ix: "indexed s b"
  from ix obtain j where j: "j < HASHSIZE" "b \<in> set (L (Head j))"
    using inv_members(1) [OF inv, of "Head _"]
    by (auto simp: indexed_def list_ex_iff split: option.splits)
  show "free_inv NCPU s' L"
    by (rule free_inv_upd [OF f y]) (use inv_indexed_not_free [OF inv j] in auto)
qed

lemma bpin_views:
  "nxt (mem (bpin b s)) = nxt (mem s)" "prv (mem (bpin b s)) = prv (mem s)"
  "pay (mem (bpin b s)) = (pay (mem s))(b := (pay (mem s) b)\<lparr>refcnt := refcnt (mem s b) + 1\<rparr>)"
  "disk (bpin b s) = disk s"
  by (simp_all add: bpin_def Let_def effect read_mem)

lemma bunpin_views:
  "nxt (mem (bunpin b s)) = nxt (mem s)" "prv (mem (bunpin b s)) = prv (mem s)"
  "pay (mem (bunpin b s)) = (pay (mem s))(b := (pay (mem s) b)\<lparr>refcnt := refcnt (mem s b) - 1\<rparr>)"
  "disk (bunpin b s) = disk s"
  by (simp_all add: bunpin_def Let_def effect read_mem)

lemma bwrite_step:
  "bwrite pd b s = Inr s' \<Longrightarrow> mem s' = mem s"
  by (auto simp: bwrite_def mem_virtio_disk_rw split: if_splits)

lemma cache_inv_mem: "mem s' = mem s \<Longrightarrow> cache_inv NBUF NCPU s' L = cache_inv NBUF NCPU s L"
  by (simp add: cache_inv_def)

lemma free_inv_mem: "mem s' = mem s \<Longrightarrow> free_inv NCPU s' L = free_inv NCPU s L"
  by (simp add: free_inv_def)

subsection \<open>binit\<close>

lemma binit_head_views:
  "nxt (mem (binit_head i s)) = (nxt (mem s))(Head i := Head i)"
  "prv (mem (binit_head i s)) = (prv (mem s))(Head i := Head i)"
  "pay (mem (binit_head i s)) = pay (mem s)"
  by (simp_all add: binit_head_def Let_def effect)

lemma binit_freelist_views:
  "nxt (mem (binit_freelist i s)) = (nxt (mem s))(Freelist i := Freelist i)"
  "prv (mem (binit_freelist i s)) = (prv (mem s))(Freelist i := Freelist i)"
  "pay (mem (binit_freelist i s)) = pay (mem s)"
  by (simp_all add: binit_freelist_def Let_def effect)

lemma binit_buf_views:
  assumes "b \<noteq> Freelist 0"
  shows "nxt (mem (binit_buf ticks b s)) =
      (nxt (mem s))(b := nxt (mem s) (Freelist 0), Freelist 0 := b)"
    "prv (mem (binit_buf ticks b s)) =
      (prv (mem s))(b := Freelist 0, nxt (mem s) (Freelist 0) := b)"
  using assms unfolding binit_buf_def Let_def
  by (simp_all add: effect read_mem fun_upd_other del: fun_upd_apply)

lemma binit_buf_pay:
  "pay (mem (binit_buf ticks b s)) =
      (pay (mem s))(b := (pay (mem s) b)\<lparr>lock := \<lparr>locked = False, pid = 0\<rparr>, timestamp := ticks\<rparr>)"
  unfolding binit_buf_def Let_def
  by (simp add: effect read_mem)

lemma fold_heads:
  "nxt (mem (fold binit_head [0..<n] s)) = (\<lambda>p. if p \<in> Head ` {..<n} then p else nxt (mem s) p) \<and>
   prv (mem (fold binit_head [0..<n] s)) = (\<lambda>p. if p \<in> Head ` {..<n} then p else prv (mem s) p) \<and>
   pay (mem (fold binit_head [0..<n] s)) = pay (mem s)"
proof (induction n)
  case 0
  show ?case by simp
next
  case (Suc n)
  then show ?case
    by (auto simp: binit_head_views fun_eq_iff less_Suc_eq)
qed

lemma fold_freelists:
  "nxt (mem (fold binit_freelist [0..<n] s)) =
     (\<lambda>p. if p \<in> Freelist ` {..<n} then p else nxt (mem s) p) \<and>
   prv (mem (fold binit_freelist [0..<n] s)) =
     (\<lambda>p. if p \<in> Freelist ` {..<n} then p else prv (mem s) p) \<and>
   pay (mem (fold binit_freelist [0..<n] s)) = pay (mem s)"
proof (induction n)
  case 0
  show ?case by simp
next
  case (Suc n)
  then show ?case
    by (auto simp: binit_freelist_views fun_eq_iff less_Suc_eq)
qed

lemma linked_empty:
  assumes "\<And>h. h \<in> set (sentinels NCPU) \<Longrightarrow> nx h = h \<and> pv h = h"
  shows "linked NCPU {} nx pv (\<lambda>h. [])"
  using assms by (simp add: linked_def dll_def)

lemma fold_bufs:
  assumes l: "linked NCPU {} (nxt (mem s)) (prv (mem s)) (\<lambda>h. [])" and NCPU: "0 < NCPU"
  shows "linked NCPU (Buf ` {..<k}) (nxt (mem (fold (binit_buf ticks) (map Buf [0..<k]) s)))
       (prv (mem (fold (binit_buf ticks) (map Buf [0..<k]) s)))
       ((\<lambda>h. [])(Freelist 0 := rev (map Buf [0..<k]))) \<and>
     (\<forall>x. pay (mem (fold (binit_buf ticks) (map Buf [0..<k]) s)) x =
        (if x \<in> Buf ` {..<k}
         then (pay (mem s) x)\<lparr>lock := \<lparr>locked = False, pid = 0\<rparr>, timestamp := ticks\<rparr>
         else pay (mem s) x))"
proof (induction k)
  case 0
  have "(\<lambda>h. [])(Freelist 0 := []) = (\<lambda>h::ptr. [] :: ptr list)" by auto
  with l show ?case by simp
next
  case (Suc k)
  let ?s = "fold (binit_buf ticks) (map Buf [0..<k]) s"
  let ?L = "(\<lambda>h. [])(Freelist 0 := rev (map Buf [0..<k]))"
  from Suc.IH have lk: "linked NCPU (Buf ` {..<k}) (nxt (mem ?s)) (prv (mem ?s)) ?L"
    by (rule conjunct1)
  from Suc.IH have y: "pay (mem ?s) x =
        (if x \<in> Buf ` {..<k}
         then (pay (mem s) x)\<lparr>lock := \<lparr>locked = False, pid = 0\<rparr>, timestamp := ticks\<rparr>
         else pay (mem s) x)" for x
    by blast
  have f: "fold (binit_buf ticks) (map Buf [0..<Suc k]) s = binit_buf ticks (Buf k) ?s"
    by simp
  have "linked NCPU (insert (Buf k) (Buf ` {..<k}))
     ((nxt (mem ?s))(Buf k := nxt (mem ?s) (Freelist 0), Freelist 0 := Buf k))
     ((prv (mem ?s))(Buf k := Freelist 0, nxt (mem ?s) (Freelist 0) := Buf k))
     (?L(Freelist 0 := Buf k # ?L (Freelist 0)))"
    by (rule linked_push [OF lk]) (use NCPU in auto)
  moreover have "insert (Buf k) (Buf ` {..<k}) = Buf ` {..<Suc k}"
    by (auto simp: less_Suc_eq)
  moreover have "?L(Freelist 0 := Buf k # ?L (Freelist 0)) =
      (\<lambda>h. [])(Freelist 0 := rev (map Buf [0..<Suc k]))"
    by auto
  ultimately have 1: "linked NCPU (Buf ` {..<Suc k})
       (nxt (mem (fold (binit_buf ticks) (map Buf [0..<Suc k]) s)))
       (prv (mem (fold (binit_buf ticks) (map Buf [0..<Suc k]) s)))
       ((\<lambda>h. [])(Freelist 0 := rev (map Buf [0..<Suc k])))"
    by (simp only: f binit_buf_views [of "Buf k", simplified])
  have 2: "pay (mem (fold (binit_buf ticks) (map Buf [0..<Suc k]) s)) x =
        (if x \<in> Buf ` {..<Suc k}
         then (pay (mem s) x)\<lparr>lock := \<lparr>locked = False, pid = 0\<rparr>, timestamp := ticks\<rparr>
         else pay (mem s) x)" for x
    unfolding f by (auto simp: binit_buf_pay y less_Suc_eq)
  from 1 2 show ?case by blast
qed

lemma binit_inv:
  fixes NBUF :: nat
  assumes NCPU: "0 < NCPU"
  defines "L0 \<equiv> (\<lambda>h. [])(Freelist 0 := rev (map Buf [0..<NBUF]))"
  shows "cache_inv NBUF NCPU (binit NBUF NCPU ticks s) L0"
    and "\<forall>x. refcnt (mem s x) = 0 \<Longrightarrow> free_inv NCPU (binit NBUF NCPU ticks s) L0"
proof -
  let ?s1 = "fold binit_head [0..<HASHSIZE] s"
  let ?s2 = "fold binit_freelist [0..<NCPU] ?s1"
  let ?s3 = "fold (binit_buf ticks) (map Buf [0..<NBUF]) ?s2"
  have b: "binit NBUF NCPU ticks s = ?s3" by (simp add: binit_def Let_def)
  have "nxt (mem ?s2) h = h \<and> prv (mem ?s2) h = h" if "h \<in> set (sentinels NCPU)" for h
    using that fold_heads [of HASHSIZE s] fold_freelists [of NCPU ?s1]
    by (auto simp: sentinels_def)
  then have "linked NCPU {} (nxt (mem ?s2)) (prv (mem ?s2)) (\<lambda>h. [])"
    by (rule linked_empty)
  from fold_bufs [OF this NCPU, of NBUF ticks]
  have l: "linked NCPU (Buf ` {..<NBUF}) (nxt (mem ?s3)) (prv (mem ?s3)) L0"
    and y: "\<And>x. pay (mem ?s3) x =
        (if x \<in> Buf ` {..<NBUF}
         then (pay (mem ?s2) x)\<lparr>lock := \<lparr>locked = False, pid = 0\<rparr>, timestamp := ticks\<rparr>
         else pay (mem ?s2) x)"
    by (auto simp: L0_def)
  show "cache_inv NBUF NCPU (binit NBUF NCPU ticks s) L0"
    unfolding b
  proof (rule cache_invI [OF l])
    fix c x assume "c < NCPU" "x \<in> set (L0 (Freelist c))"
    then have "x \<in> Buf ` {..<NBUF}" by (auto simp: L0_def split: if_splits)
    then show "\<not> locked (lock (pay (mem ?s3) x))" by (simp add: y)
  next
    fix i x assume "x \<in> set (L0 (Head i))"
    then show "hash (dev (pay (mem ?s3) x)) (blockno (pay (mem ?s3) x)) = i"
      by (simp add: L0_def)
  qed
  assume z: "\<forall>x. refcnt (mem s x) = 0"
  have "pay (mem ?s2) = pay (mem s)"
    using fold_heads [of HASHSIZE s] fold_freelists [of NCPU ?s1] by simp
  with z have "refcnt (pay (mem ?s3) x) = 0" for x
    by (simp add: y read_mem)
  then show "free_inv NCPU (binit NBUF NCPU ticks s) L0"
    unfolding b free_inv_pay by simp
qed

lemma exec_inv:
  assumes inv: "cache_inv NBUF NCPU s L" and ex: "exec NBUF NCPU c s = Some s'"
  shows "\<exists>L'. cache_inv NBUF NCPU s' L' \<and> (free_inv NCPU s L \<longrightarrow> legal s c \<longrightarrow> free_inv NCPU s' L')"
proof (cases c)
  case (Binit ticks)
  with ex have "0 < NCPU" "s' = binit NBUF NCPU ticks s"
    by (simp_all split: if_splits)
  with binit_inv(1) [of NCPU NBUF ticks s] Binit show ?thesis
    by auto
next
  case (Bread pd cpu ticks dv bn)
  with ex have cpu: "cpu < NCPU" by (simp split: if_splits)
  with ex Bread have "(case bread NCPU pd cpu ticks dv bn s of
           Some (Inr (b, s')) \<Rightarrow> Some s'
         | _ \<Rightarrow> None) = Some s'" by simp
  then obtain b where "bread NCPU pd cpu ticks dv bn s = Some (Inr (b, s'))"
    by (simp split: option.splits sum.splits prod.splits)
  note cpu this
  from bread_step [OF inv this] show ?thesis by blast
next
  case (Bwrite pd i)
  with ex have "bwrite pd (Buf i) s = Inr s'"
    by (cases "bwrite pd (Buf i) s") (simp_all split: if_splits)
  then have m: "mem s' = mem s" by (rule bwrite_step)
  from inv show ?thesis
    by (auto simp: cache_inv_mem [OF m] free_inv_mem [OF m])
next
  case (Brelse pd cpu i)
  with ex have "i < NBUF" "cpu < NCPU" "brelse pd cpu (Buf i) s = Inr s'"
    by (cases "brelse pd cpu (Buf i) s"; simp split: if_splits)+
  from brelse_step [OF inv this] show ?thesis by blast
next
  case (Bpin i)
  with ex have s': "s' = bpin (Buf i) s" by (simp split: if_splits)
  from refcnt_step [OF inv bpin_views(1,2,3) [of "Buf i" s]] Bpin show ?thesis
    unfolding s' by (intro exI [of _ L]) simp
next
  case (Bunpin i)
  with ex have s': "s' = bunpin (Buf i) s" by (simp split: if_splits)
  from refcnt_step [OF inv bunpin_views(1,2,3) [of "Buf i" s]] Bunpin show ?thesis
    unfolding s' by (intro exI [of _ L]) simp
qed

lemma reachable_inv: "reachable NBUF NCPU s \<Longrightarrow> \<exists>L. cache_inv NBUF NCPU s L"
proof (induction rule: reachable.induct)
  case (init ticks s)
  with binit_inv(1) show ?case by blast
next
  case (step s c s')
  then obtain L where "cache_inv NBUF NCPU s L" by blast
  from exec_inv [OF this step.hyps(2)] show ?case by blast
qed

lemma booted_inv:
  "booted NBUF NCPU s \<Longrightarrow> \<exists>L. cache_inv NBUF NCPU s L \<and> free_inv NCPU s L"
proof (induction rule: booted.induct)
  case (boot ticks d)
  have "\<forall>x. refcnt (mem (boot d) x) = 0" by (simp add: boot_def zero_buf_def)
  with binit_inv [OF boot] show ?case by blast
next
  case (step s c s')
  then obtain L where "cache_inv NBUF NCPU s L" "free_inv NCPU s L" by blast
  with exec_inv [OF this(1) step.hyps(3)] step.hyps(2) show ?case by blast
qed

lemma booted_reachable: "booted NBUF NCPU s \<Longrightarrow> reachable NBUF NCPU s"
  by (induction rule: booted.induct) (auto intro: reachable.intros)

section \<open>The claims about reachable states\<close>

subsection \<open>Runs\<close>

lemma run_reachable:
  "reachable NBUF NCPU s \<Longrightarrow> run NBUF NCPU cs s = Some s' \<Longrightarrow> reachable NBUF NCPU s'"
proof (induction cs arbitrary: s)
  case Nil
  then show ?case by simp
next
  case (Cons c cs)
  from Cons.prems(2) obtain s1 where e: "exec NBUF NCPU c s = Some s1"
    and r: "run NBUF NCPU cs s1 = Some s'"
    by (auto split: option.splits)
  from reachable.step [OF Cons.prems(1) e] r show ?case by (rule Cons.IH)
qed

lemma run_booted:
  "booted NBUF NCPU s \<Longrightarrow> run NBUF NCPU cs s = Some s' \<Longrightarrow>
   list_all (\<lambda>c. \<forall>t. legal t c) cs \<Longrightarrow> booted NBUF NCPU s'"
proof (induction cs arbitrary: s)
  case Nil
  then show ?case by simp
next
  case (Cons c cs)
  from Cons.prems(2) obtain s1 where e: "exec NBUF NCPU c s = Some s1"
    and r: "run NBUF NCPU cs s1 = Some s'"
    by (auto split: option.splits)
  from Cons.prems(3) have "legal s c" "list_all (\<lambda>c. \<forall>t. legal t c) cs" by simp_all
  from booted.step [OF Cons.prems(1) this(1) e] r this(2) show ?case by (rule Cons.IH)
qed

lemma run_the: "\<not> Option.is_none (run NBUF NCPU cs s) \<Longrightarrow> run NBUF NCPU cs s = Some (the (run NBUF NCPU cs s))"
  by (cases "run NBUF NCPU cs s") simp_all

lemma distinct_concat_map:
  "distinct hs \<Longrightarrow> (\<forall>h \<in> set hs. distinct (L h)) \<Longrightarrow>
   (\<forall>h \<in> set hs. \<forall>h' \<in> set hs. h \<noteq> h' \<longrightarrow> set (L h) \<inter> set (L h') = {}) \<Longrightarrow>
   distinct (concat (map L hs))"
  by (induction hs) auto

lemma linked_count:
  assumes l: "linked NCPU (Buf ` {..<NBUF}) nx pv L"
  shows "(\<Sum>h\<leftarrow>sentinels NCPU. length (L h)) = NBUF"
proof -
  let ?hs = "sentinels NCPU"
  have d: "distinct (concat (map L ?hs))"
    using l by (intro distinct_concat_map distinct_sentinels) (auto simp: linked_def dll_def)
  have "set (concat (map L ?hs)) = Buf ` {..<NBUF}"
    using l by (auto simp: linked_def)
  moreover have "card (Buf ` {..<NBUF}) = NBUF"
    by (subst card_image) (simp_all add: inj_on_def)
  ultimately have "card (set (concat (map L ?hs))) = NBUF"
    by (simp only:)
  with distinct_card [OF d] have "length (concat (map L ?hs)) = NBUF"
    by (simp only:)
  then show ?thesis
    by (simp add: length_concat comp_def)
qed

text \<open>
  C1. In every state reached by calls of \<open>binit\<close>, \<open>bread\<close>, \<open>brelse\<close> (and \<open>bwrite\<close>,
  \<open>bpin\<close>, \<open>bunpin\<close>) that return, every bucket and every free list is a well-formed
  list (its \<open>next\<close> chain comes back to the sentinel, its \<open>prev\<close> chain is the reverse),
  every one of the \<open>NBUF\<close> buffers is in exactly one of these lists, the lists hold
  nothing but these buffers, and their lengths add up to \<open>NBUF\<close>.
\<close>

theorem C1_one_list:
  assumes "reachable NBUF NCPU s"
  shows "\<exists>L. (\<forall>h \<in> set (sentinels NCPU).
            members (mem s) h = Some (L h) \<and> members_back (mem s) h = Some (rev (L h))) \<and>
         (\<forall>i<NBUF. \<exists>!h. h \<in> set (sentinels NCPU) \<and> Buf i \<in> set (L h)) \<and>
         (\<forall>h \<in> set (sentinels NCPU). set (L h) \<subseteq> Buf ` {..<NBUF}) \<and>
         (\<Sum>h\<leftarrow>sentinels NCPU. length (L h)) = NBUF"
proof -
  from reachable_inv [OF assms] obtain L where inv: "cache_inv NBUF NCPU s L" ..
  note l = cache_invD(1) [OF inv]
  have 1: "\<forall>h \<in> set (sentinels NCPU).
            members (mem s) h = Some (L h) \<and> members_back (mem s) h = Some (rev (L h))"
    using inv_members [OF inv] by blast
  have 2: "\<exists>!h. h \<in> set (sentinels NCPU) \<and> Buf i \<in> set (L h)" if "i < NBUF" for i
  proof -
    from that linked_owner [OF l, of "Buf i"] obtain h where
      h: "h \<in> set (sentinels NCPU)" "Buf i \<in> set (L h)" by auto
    show ?thesis
    proof (rule ex1I [of _ h])
      show "h \<in> set (sentinels NCPU) \<and> Buf i \<in> set (L h)" using h by simp
    next
      fix h' assume "h' \<in> set (sentinels NCPU) \<and> Buf i \<in> set (L h')"
      with linked_disjoint [OF l h(1) _ _ h(2), of h'] show "h' = h" by auto
    qed
  qed
  have 3: "\<forall>h \<in> set (sentinels NCPU). set (L h) \<subseteq> Buf ` {..<NBUF}"
    using linkedD(2) [OF l] by blast
  from 1 2 3 linked_count [OF l] show ?thesis by blast
qed

text \<open>An instance: two buffers, one CPU, after \<open>binit\<close> and one \<open>bread\<close>.\<close>

theorem C1_one_list_witness:
  "reachable 2 1 (the (run 2 1 [Bread 1 0 0 1 0] (binit 2 1 0 (boot blank)))) \<and>
   members (mem (the (run 2 1 [Bread 1 0 0 1 0] (binit 2 1 0 (boot blank))))) (Head 11)
     = Some [Buf 0] \<and>
   members (mem (the (run 2 1 [Bread 1 0 0 1 0] (binit 2 1 0 (boot blank))))) (Freelist 0)
     = Some [Buf 1] \<and>
   (\<exists>L. (\<forall>h \<in> set (sentinels 1).
            members (mem (the (run 2 1 [Bread 1 0 0 1 0] (binit 2 1 0 (boot blank))))) h
              = Some (L h) \<and>
            members_back (mem (the (run 2 1 [Bread 1 0 0 1 0] (binit 2 1 0 (boot blank))))) h
              = Some (rev (L h))) \<and>
         (\<forall>i<2. \<exists>!h. h \<in> set (sentinels 1) \<and> Buf i \<in> set (L h)) \<and>
         (\<forall>h \<in> set (sentinels 1). set (L h) \<subseteq> Buf ` {..<2}) \<and>
         (\<Sum>h\<leftarrow>sentinels 1. length (L h)) = 2)"
proof -
  define S where "S = the (run 2 1 [Bread 1 0 0 1 0] (binit 2 1 0 (boot blank)))"
  have "\<not> Option.is_none (run 2 1 [Bread 1 0 0 1 0] (binit 2 1 0 (boot blank)))"
    by code_simp
  then have "run 2 1 [Bread 1 0 0 1 0] (binit 2 1 0 (boot blank)) = Some S"
    unfolding S_def by (rule run_the)
  from run_reachable [OF reachable.init this] have r: "reachable 2 1 S" by simp
  have 1: "members (mem S) (Head 11) = Some [Buf 0]" unfolding S_def by code_simp
  have 2: "members (mem S) (Freelist 0) = Some [Buf 1]" unfolding S_def by code_simp
  from C1_one_list [OF r] r 1 2 show ?thesis unfolding S_def [symmetric] by blast
qed

subsection \<open>No free buffer\<close>

lemma bread_fault:
  "bget NCPU pd cpu ticks dv bn s = Some (Inl f) \<Longrightarrow>
   bread NCPU pd cpu ticks dv bn s = Some (Inl f)"
  by (simp add: bread_def)

text \<open>
  C7. When the bucket scan of \<open>bget\<close> finds no buffer for the block and every free list
  is empty, \<open>bget\<close> panics with "bget: no buffers", and so does \<open>bread\<close>: the call
  neither returns a buffer nor sleeps.
\<close>

theorem C7_no_buffers:
  assumes "reachable NBUF NCPU s" and "cpu < NCPU"
    and "lookup s dv bn = Some None"
    and "\<forall>c<NCPU. members (mem s) (Freelist c) = Some []"
  shows "bget NCPU pd cpu ticks dv bn s = Some (Inl (Panic ''bget: no buffers'')) \<and>
         bread NCPU pd cpu ticks dv bn s = Some (Inl (Panic ''bget: no buffers''))"
proof -
  from reachable_inv [OF assms(1)] obtain L where inv: "cache_inv NBUF NCPU s L" ..
  have "L (Freelist c) = []" if "c < NCPU" for c
    using inv_members(1) [OF inv, of "Freelist c"] assms(4) that by simp
  then have "victim NCPU cpu (mem s) = None"
    by (simp add: inv_victim_None [OF inv assms(2)])
  with bget_miss [OF assms(3), of NCPU pd cpu ticks]
  have "bget NCPU pd cpu ticks dv bn s = Some (Inl (Panic ''bget: no buffers''))"
    by auto
  then show ?thesis by (simp add: bread_fault)
qed

text \<open>An instance: one buffer, which holds block (1, 0), when block (1, 1) is asked for.\<close>

theorem C7_no_buffers_witness:
  "reachable 1 1 (the (run 1 1 [Bread 1 0 0 1 0] (binit 1 1 0 (boot blank)))) \<and>
   lookup (the (run 1 1 [Bread 1 0 0 1 0] (binit 1 1 0 (boot blank)))) 1 1 = Some None \<and>
   members (mem (the (run 1 1 [Bread 1 0 0 1 0] (binit 1 1 0 (boot blank)))))
      (Freelist 0) = Some [] \<and>
   bread 1 2 0 0 1 1 (the (run 1 1 [Bread 1 0 0 1 0] (binit 1 1 0 (boot blank))))
     = Some (Inl (Panic ''bget: no buffers''))"
proof -
  define S where "S = the (run 1 1 [Bread 1 0 0 1 0] (binit 1 1 0 (boot blank)))"
  have "\<not> Option.is_none (run 1 1 [Bread 1 0 0 1 0] (binit 1 1 0 (boot blank)))"
    by code_simp
  then have "run 1 1 [Bread 1 0 0 1 0] (binit 1 1 0 (boot blank)) = Some S"
    unfolding S_def by (rule run_the)
  from run_reachable [OF reachable.init this] have r: "reachable 1 1 S" by simp
  have 1: "lookup S 1 1 = Some None" unfolding S_def by code_simp
  have 0: "members (mem S) (Freelist 0) = Some []" unfolding S_def by code_simp
  then have 2: "\<forall>c<1. members (mem S) (Freelist c) = Some []" by simp
  from C7_no_buffers [OF r _ 1 2, of 0 2 0] r 1 0 show ?thesis
    unfolding S_def [symmetric] by simp
qed

subsection \<open>Free buffers have no reference\<close>

text \<open>
  C2. In every state of a kernel that has booted (\<open>binit\<close> once on zeroed memory, then
  calls that return, \<open>bpin\<close> and \<open>bunpin\<close> on indexed buffers only), every buffer in a
  free list has reference count 0. And in any reachable state \<open>t\<close>, when \<open>bget\<close> misses,
  the buffer \<open>b\<close> that its recycling loops meet is the last one of a free list, and if
  its reference count is not 0 then \<open>bget\<close> panics with "bget: freelist is not free!"
  (and so does \<open>bread\<close>) instead of recycling it.
\<close>

theorem C2_free_unreferenced:
  "(booted NBUF NCPU s \<longrightarrow>
      (\<forall>c<NCPU. \<forall>xs. members (mem s) (Freelist c) = Some xs \<longrightarrow>
         (\<forall>b \<in> set xs. refcnt (mem s b) = 0))) \<and>
   (reachable NBUF NCPU t \<and> cpu < NCPU \<and> lookup t dv bn = Some None \<and>
    victim NCPU cpu (mem t) = Some (c, b) \<longrightarrow>
      c < NCPU \<and> (\<exists>xs. members (mem t) (Freelist c) = Some (xs @ [b])) \<and>
      (refcnt (mem t b) \<noteq> 0 \<longrightarrow>
         bget NCPU pd cpu ticks dv bn t = Some (Inl (Panic ''bget: freelist is not free!'')) \<and>
         bread NCPU pd cpu ticks dv bn t = Some (Inl (Panic ''bget: freelist is not free!''))))"
proof (intro conjI impI allI ballI)
  fix c' xs b'
  assume "booted NBUF NCPU s" and c': "c' < NCPU"
    and m: "members (mem s) (Freelist c') = Some xs" and b': "b' \<in> set xs"
  from booted_inv [OF this(1)] obtain L where inv: "cache_inv NBUF NCPU s L"
    and f: "free_inv NCPU s L" by blast
  from inv_members(1) [OF inv, of "Freelist c'"] c' m have "L (Freelist c') = xs" by simp
  with f c' b' show "refcnt (mem s b') = 0" by (auto simp: free_inv_def)
next
  assume a: "reachable NBUF NCPU t \<and> cpu < NCPU \<and> lookup t dv bn = Some None \<and>
    victim NCPU cpu (mem t) = Some (c, b)"
  then obtain L where inv: "cache_inv NBUF NCPU t L" using reachable_inv by blast
  from a have cpu: "cpu < NCPU" and v: "victim NCPU cpu (mem t) = Some (c, b)" by simp_all
  show c: "c < NCPU" by (rule inv_victim_Some(1) [OF inv cpu v])
  from inv_members(1) [OF inv, of "Freelist c"] c inv_victim_Some(2) [OF inv cpu v]
  show "\<exists>xs. members (mem t) (Freelist c) = Some (xs @ [b])" by auto
next
  assume a: "reachable NBUF NCPU t \<and> cpu < NCPU \<and> lookup t dv bn = Some None \<and>
    victim NCPU cpu (mem t) = Some (c, b)" and rc: "refcnt (mem t b) \<noteq> 0"
  from a have miss: "lookup t dv bn = Some None" and v: "victim NCPU cpu (mem t) = Some (c, b)"
    by simp_all
  from bget_miss [OF miss, of NCPU pd cpu ticks] v obtain t0 where t0: "mem t0 = mem t"
    and g: "bget NCPU pd cpu ticks dv bn t = Some (recycle pd (hash dv bn) c dv bn b t0)"
    by auto
  from rc t0 have "recycle pd (hash dv bn) c dv bn b t0 = Inl (Panic ''bget: freelist is not free!'')"
    by (intro recycle_panic) simp
  with g show "bget NCPU pd cpu ticks dv bn t = Some (Inl (Panic ''bget: freelist is not free!''))"
    by simp
  then show "bread NCPU pd cpu ticks dv bn t = Some (Inl (Panic ''bget: freelist is not free!''))"
    by (rule bread_fault)
qed

text \<open>Two instances: a booted state with one free buffer; and a state in which a caller
  has pinned a free buffer, so that the next miss meets it with a count of 1.\<close>

theorem C2_free_unreferenced_witness:
  "booted 2 1 (the (run 2 1 [Bread 1 0 0 1 0] (binit 2 1 0 (boot blank)))) \<and>
   members (mem (the (run 2 1 [Bread 1 0 0 1 0] (binit 2 1 0 (boot blank))))) (Freelist 0)
     = Some [Buf 1] \<and>
   refcnt (mem (the (run 2 1 [Bread 1 0 0 1 0] (binit 2 1 0 (boot blank)))) (Buf 1)) = 0 \<and>
   reachable 1 1 (the (run 1 1 [Bpin 0] (binit 1 1 0 (boot blank)))) \<and>
   lookup (the (run 1 1 [Bpin 0] (binit 1 1 0 (boot blank)))) 1 0 = Some None \<and>
   victim 1 0 (mem (the (run 1 1 [Bpin 0] (binit 1 1 0 (boot blank))))) = Some (0, Buf 0) \<and>
   refcnt (mem (the (run 1 1 [Bpin 0] (binit 1 1 0 (boot blank)))) (Buf 0)) = 1 \<and>
   bread 1 1 0 0 1 0 (the (run 1 1 [Bpin 0] (binit 1 1 0 (boot blank))))
     = Some (Inl (Panic ''bget: freelist is not free!''))"
proof -
  define S where "S = the (run 2 1 [Bread 1 0 0 1 0] (binit 2 1 0 (boot blank)))"
  define T where "T = the (run 1 1 [Bpin 0] (binit 1 1 0 (boot blank)))"
  have "\<not> Option.is_none (run 2 1 [Bread 1 0 0 1 0] (binit 2 1 0 (boot blank)))"
    by code_simp
  then have "run 2 1 [Bread 1 0 0 1 0] (binit 2 1 0 (boot blank)) = Some S"
    unfolding S_def by (rule run_the)
  from run_booted [OF booted.boot this] have bS: "booted 2 1 S" by simp
  have "\<not> Option.is_none (run 1 1 [Bpin 0] (binit 1 1 0 (boot blank)))"
    by code_simp
  then have "run 1 1 [Bpin 0] (binit 1 1 0 (boot blank)) = Some T"
    unfolding T_def by (rule run_the)
  from run_reachable [OF reachable.init this] have rT: "reachable 1 1 T" by simp
  have 1: "members (mem S) (Freelist 0) = Some [Buf 1]" unfolding S_def by code_simp
  have 2: "lookup T 1 0 = Some None" unfolding T_def by code_simp
  have 3: "victim 1 0 (mem T) = Some (0, Buf 0)" unfolding T_def by code_simp
  have 4: "refcnt (mem T (Buf 0)) = 1" unfolding T_def by code_simp
  from C2_free_unreferenced [of 2 1 S] bS 1 have 5: "refcnt (mem S (Buf 1)) = 0" by auto
  from C2_free_unreferenced [of 1 1 _ T 0 1 0 0 "Buf 0" 1 0] rT 2 3 4 have 6:
    "bread 1 1 0 0 1 0 T = Some (Inl (Panic ''bget: freelist is not free!''))" by auto
  from bS rT 1 2 3 4 5 6 show ?thesis unfolding S_def [symmetric] T_def [symmetric] by blast
qed

subsection \<open>A hit\<close>

lemma members_lookup:
  assumes "members (mem s) (Head (hash dv bn)) = Some xs"
  shows "lookup s dv bn = Some (find (\<lambda>b. dev (mem s b) = dv \<and> blockno (mem s b) = bn) xs)"
  using walk_scan [OF assms [unfolded members_def], of dv bn]
  by (simp add: lookup_def read_mem)

lemma members_cong:
  "nxt m' = nxt m \<Longrightarrow> members m' h = members m h"
  "prv m' = prv m \<Longrightarrow> members_back m' h = members_back m h"
  by (simp_all add: members_def members_back_def)

text \<open>
  C3, amended. When the bucket of (\<open>dev\<close>, \<open>blockno\<close>) holds a buffer with this identity
  (\<open>b\<close>, the first such), \<open>bget\<close> takes the bucket lock, stores the incremented reference
  count and the time stamp of \<open>b\<close> and releases the bucket lock: \<open>s1\<close> is the machine
  then. No \<open>next\<close> or \<open>prev\<close> pointer has changed, so every list has the members it
  had, in the same order, and no other buffer has changed. Then \<open>bget\<close> takes the
  content lock of \<open>b\<close> and returns \<open>b\<close>, or sleeps when the lock is held.
\<close>

theorem C3_hit_in_place:
  assumes "members (mem s) (Head (hash dv bn)) = Some xs"
    and "find (\<lambda>b. dev (mem s b) = dv \<and> blockno (mem s b) = bn) xs = Some b"
  shows "\<exists>s1.
      (\<forall>p. next (mem s1 p) = next (mem s p) \<and> prev (mem s1 p) = prev (mem s p)) \<and>
      (\<forall>h. members (mem s1) h = members (mem s) h) \<and>
      refcnt (mem s1 b) = refcnt (mem s b) + 1 \<and> timestamp (mem s1 b) = ticks \<and>
      (\<forall>p. p \<noteq> b \<longrightarrow> mem s1 p = mem s p) \<and>
      trace s1 = trace s @ [Acquire (Headlk (hash dv bn)), Store b F_refcnt,
        Store b F_timestamp, Release (Headlk (hash dv bn))] \<and>
      bget NCPU pd cpu ticks dv bn s =
        Some (case acquiresleep pd b s1 of Inl f \<Rightarrow> Inl f | Inr s' \<Rightarrow> Inr (b, s')) \<and>
      (locked (lock (mem s b)) \<longrightarrow> bget NCPU pd cpu ticks dv bn s = Some (Inl (Sleep s1))) \<and>
      (\<not> locked (lock (mem s b)) \<longrightarrow>
         (\<exists>s'. bget NCPU pd cpu ticks dv bn s = Some (Inr (b, s')) \<and>
            (\<forall>h. members (mem s') h = members (mem s) h) \<and>
            refcnt (mem s' b) = refcnt (mem s b) + 1 \<and> timestamp (mem s' b) = ticks \<and>
            holdingsleep pd b s' \<and>
            trace s' = trace s1 @ [Acquiresleep b pd]))"
proof -
  from members_lookup [OF assms(1)] assms(2) have hit: "lookup s dv bn = Some (Some b)"
    by simp
  from bget_hit [OF hit, of NCPU pd cpu ticks] obtain s1 where s1:
    "bget NCPU pd cpu ticks dv bn s =
        Some (case acquiresleep pd b s1 of Inl f \<Rightarrow> Inl f | Inr s' \<Rightarrow> Inr (b, s'))"
    "nxt (mem s1) = nxt (mem s)" "prv (mem s1) = prv (mem s)"
    "pay (mem s1) = (pay (mem s))
        (b := (pay (mem s) b)\<lparr>refcnt := refcnt (mem s b) + 1, timestamp := ticks\<rparr>)"
    "trace s1 = trace s @ [Acquire (Headlk (hash dv bn)), Store b F_refcnt,
        Store b F_timestamp, Release (Headlk (hash dv bn))]"
    by blast
  have 1: "\<forall>p. next (mem s1 p) = next (mem s p) \<and> prev (mem s1 p) = prev (mem s p)"
    by (simp add: read_mem s1)
  have 2: "\<forall>h. members (mem s1) h = members (mem s) h"
    by (simp add: members_cong(1) [OF s1(2)])
  have 3: "refcnt (mem s1 b) = refcnt (mem s b) + 1" "timestamp (mem s1 b) = ticks"
    by (simp_all add: read_mem s1(4))
  have 4: "\<forall>p. p \<noteq> b \<longrightarrow> mem s1 p = mem s p"
  proof (intro allI impI)
    fix p assume "p \<noteq> b"
    then have "payload (mem s1 p) = payload (mem s p)"
      using s1(4) by (simp add: pay_def fun_eq_iff)
    moreover from 1 have "next (mem s1 p) = next (mem s p)" "prev (mem s1 p) = prev (mem s p)"
      by simp_all
    ultimately show "mem s1 p = mem s p" by (intro buf_eqI [of "mem s1 p" "mem s p"])
  qed
  have 5: "locked (lock (mem s b)) \<longrightarrow> bget NCPU pd cpu ticks dv bn s = Some (Inl (Sleep s1))"
    by (simp add: s1(1) acquiresleep_effect s1(4) read_mem)
  have 6: "\<exists>s'. bget NCPU pd cpu ticks dv bn s = Some (Inr (b, s')) \<and>
            (\<forall>h. members (mem s') h = members (mem s) h) \<and>
            refcnt (mem s' b) = refcnt (mem s b) + 1 \<and> timestamp (mem s' b) = ticks \<and>
            holdingsleep pd b s' \<and>
            trace s' = trace s1 @ [Acquiresleep b pd]" if ul: "\<not> locked (lock (mem s b))"
  proof -
    from ul have "\<not> locked (lock (pay (mem s1) b))" by (simp add: s1(4) read_mem)
    from acquiresleep_views [OF this, of pd] obtain s' where s':
      "acquiresleep pd b s1 = Inr s'" "nxt (mem s') = nxt (mem s1)"
      "pay (mem s') = (pay (mem s1))(b := (pay (mem s1) b)\<lparr>lock := \<lparr>locked = True, pid = pd\<rparr>\<rparr>)"
      "trace s' = trace s1 @ [Acquiresleep b pd]"
      by blast
    have "\<forall>h. members (mem s') h = members (mem s) h"
      by (simp add: members_cong(1) [OF s'(2)] 2)
    moreover have "refcnt (mem s' b) = refcnt (mem s b) + 1" "timestamp (mem s' b) = ticks"
      "holdingsleep pd b s'"
      by (simp_all add: read_mem s'(3) s1(4) holdingsleep_def)
    ultimately show ?thesis using s1(1) s'(1,4) by simp
  qed
  from 6 have 7: "\<not> locked (lock (mem s b)) \<longrightarrow>
         (\<exists>s'. bget NCPU pd cpu ticks dv bn s = Some (Inr (b, s')) \<and>
            (\<forall>h. members (mem s') h = members (mem s) h) \<and>
            refcnt (mem s' b) = refcnt (mem s b) + 1 \<and> timestamp (mem s' b) = ticks \<and>
            holdingsleep pd b s' \<and>
            trace s' = trace s1 @ [Acquiresleep b pd])" ..
  show ?thesis
    by (intro exI [of _ s1] conjI 1 2 3 4 5 7 s1(1) s1(5))
qed

text \<open>An instance: the state of the counterexample.\<close>

theorem C3_hit_in_place_witness:
  "members (mem (the (run 2 1 [Bread 1 0 0 1 0, Bread 1 0 0 1 13, Bpin 0, Brelse 1 0 0]
                  (binit 2 1 0 (boot blank))))) (Head (hash 1 0)) = Some [Buf 1, Buf 0] \<and>
   find (\<lambda>b. dev (mem (the (run 2 1 [Bread 1 0 0 1 0, Bread 1 0 0 1 13, Bpin 0, Brelse 1 0 0]
                  (binit 2 1 0 (boot blank)))) b) = 1 \<and>
              blockno (mem (the (run 2 1 [Bread 1 0 0 1 0, Bread 1 0 0 1 13, Bpin 0, Brelse 1 0 0]
                  (binit 2 1 0 (boot blank)))) b) = 0) [Buf 1, Buf 0] = Some (Buf 0) \<and>
   (\<exists>s'. bget 1 2 0 5 1 0 (the (run 2 1 [Bread 1 0 0 1 0, Bread 1 0 0 1 13, Bpin 0, Brelse 1 0 0]
                  (binit 2 1 0 (boot blank)))) = Some (Inr (Buf 0, s')) \<and>
      members (mem s') (Head (hash 1 0)) = Some [Buf 1, Buf 0] \<and>
      refcnt (mem s' (Buf 0)) = 2)"
proof -
  define S where "S = the (run 2 1 [Bread 1 0 0 1 0, Bread 1 0 0 1 13, Bpin 0, Brelse 1 0 0]
                  (binit 2 1 0 (boot blank)))"
  have 1: "members (mem S) (Head (hash 1 0)) = Some [Buf 1, Buf 0]"
    unfolding S_def by code_simp
  have "blockno (mem S (Buf 1)) = 13" "dev (mem S (Buf 0)) = 1" "blockno (mem S (Buf 0)) = 0"
    unfolding S_def by code_simp+
  then have 2: "find (\<lambda>b. dev (mem S b) = 1 \<and> blockno (mem S b) = 0) [Buf 1, Buf 0] = Some (Buf 0)"
    by simp
  have 3: "\<not> locked (lock (mem S (Buf 0)))" unfolding S_def by code_simp
  have 4: "refcnt (mem S (Buf 0)) = 1" unfolding S_def by code_simp
  from C3_hit_in_place [OF 1 2, of 5 1 2 0] obtain s1 :: machine where
    "\<not> locked (lock (mem S (Buf 0))) \<longrightarrow>
         (\<exists>s'. bget 1 2 0 5 1 0 S = Some (Inr (Buf 0, s')) \<and>
            (\<forall>h. members (mem s') h = members (mem S) h) \<and>
            refcnt (mem s' (Buf 0)) = refcnt (mem S (Buf 0)) + 1 \<and>
            timestamp (mem s' (Buf 0)) = 5 \<and>
            holdingsleep 2 (Buf 0) s' \<and>
            trace s' = trace s1 @ [Acquiresleep (Buf 0) 2])"
    by (elim exE conjE) (erule that)
  with 3 obtain s' where
    a: "bget 1 2 0 5 1 0 S = Some (Inr (Buf 0, s'))"
      "\<forall>h. members (mem s') h = members (mem S) h"
      "refcnt (mem s' (Buf 0)) = refcnt (mem S (Buf 0)) + 1"
    by blast
  from a(2) 1 have "members (mem s') (Head (hash 1 0)) = Some [Buf 1, Buf 0]"
    by (simp only:)
  moreover from a(3) 4 have "refcnt (mem s' (Buf 0)) = 2" by simp
  moreover note a(1)
  ultimately have "\<exists>s'. bget 1 2 0 5 1 0 S = Some (Inr (Buf 0, s')) \<and>
      members (mem s') (Head (hash 1 0)) = Some [Buf 1, Buf 0] \<and>
      refcnt (mem s' (Buf 0)) = 2"
    by blast
  with 1 2 show ?thesis unfolding S_def [symmetric] by blast
qed


text \<open>
  C3, as stated, fails: the hit does not move the buffer to the head of its bucket.
  Two buffers, one CPU. Blocks (1, 0) and (1, 13) have the same bucket; after both are
  read, buffer 0 (block (1, 0)) is behind buffer 1 in the bucket. It is pinned and
  released, so it stays in the bucket, unlocked. Reading block (1, 0) again hits buffer
  0 and returns it, and the bucket is still buffer 1, then buffer 0.
\<close>

theorem C3_hit_not_moved_counterexample:
  "lookup (the (run 2 1 [Bread 1 0 0 1 0, Bread 1 0 0 1 13, Bpin 0, Brelse 1 0 0]
                  (binit 2 1 0 (boot blank)))) 1 0 = Some (Some (Buf 0)) \<and>
   buf_of (bread 1 2 0 5 1 0
     (the (run 2 1 [Bread 1 0 0 1 0, Bread 1 0 0 1 13, Bpin 0, Brelse 1 0 0]
             (binit 2 1 0 (boot blank))))) = Some (Buf 0) \<and>
   members (mem (the (state_of (bread 1 2 0 5 1 0
     (the (run 2 1 [Bread 1 0 0 1 0, Bread 1 0 0 1 13, Bpin 0, Brelse 1 0 0]
             (binit 2 1 0 (boot blank)))))))) (Head (hash 1 0)) = Some [Buf 1, Buf 0] \<and>
   map_option hd (members (mem (the (state_of (bread 1 2 0 5 1 0
     (the (run 2 1 [Bread 1 0 0 1 0, Bread 1 0 0 1 13, Bpin 0, Brelse 1 0 0]
             (binit 2 1 0 (boot blank)))))))) (Head (hash 1 0))) \<noteq> Some (Buf 0)"
  by code_simp

subsection \<open>Releasing a buffer\<close>

lemma inv_next_other:
  assumes inv: "cache_inv NBUF NCPU s L" and h: "h \<in> set (sentinels NCPU)"
    and b: "b \<in> set (L h)"
  shows "nxt (mem s) b \<noteq> b" "prv (mem s) b \<noteq> b"
proof -
  from b obtain ys zs where Lh: "L h = ys @ b # zs"
    by (auto simp: in_set_conv_decomp)
  have d: "dll (nxt (mem s)) (prv (mem s)) h (ys @ b # zs)"
    using linkedD(1) [OF cache_invD(1) [OF inv] h] Lh by simp
  have "nxt (mem s) b \<in> insert h (set zs)"
    using dll_next [OF d] hd_in_snoc [of zs h] by simp
  moreover have "prv (mem s) b \<in> insert h (set ys)"
    using dll_prev [OF d] last_in_cons [of h ys] by simp
  moreover have "b \<notin> insert h (set zs)" "b \<notin> insert h (set ys)"
    using d by (auto simp: dll_def)
  ultimately show "nxt (mem s) b \<noteq> b" "prv (mem s) b \<noteq> b" by auto
qed

lemma pay_other:
  "pay (mem s') = (pay (mem s))(b := r) \<Longrightarrow> p \<noteq> b \<Longrightarrow> payload (mem s' p) = payload (mem s p)"
  by (simp add: pay_def fun_eq_iff)

text \<open>
  C6. In a reachable state, \<open>brelse\<close> of a buffer whose content lock the caller does not
  hold panics. When the caller holds it, the buffer is in the bucket \<open>ident\<close> of its
  identity, and \<open>brelse\<close> returns: it has released the content lock, then taken the
  bucket lock and stored the decremented reference count, and last released the bucket
  lock (the trace). Nothing else of any buffer has changed but links. If the count has
  become 0, the buffer has left its bucket and is the first member of the free list of
  the current CPU, moved between the two stores under the lock of that free list, and
  the other lists are as before; otherwise every list is as before.
\<close>

theorem C6_brelse:
  assumes "reachable NBUF NCPU s" and "i < NBUF" and "cpu < NCPU"
    and "ident = hash (dev (mem s (Buf i))) (blockno (mem s (Buf i)))"
  shows "(\<not> holdingsleep pd (Buf i) s \<longrightarrow> brelse pd cpu (Buf i) s = Inl (Panic ''brelse'')) \<and>
    (holdingsleep pd (Buf i) s \<longrightarrow>
       (\<exists>s' bs fs es.
          members (mem s) (Head ident) = Some bs \<and> Buf i \<in> set bs \<and>
          members (mem s) (Freelist cpu) = Some fs \<and>
          brelse pd cpu (Buf i) s = Inr s' \<and>
          \<not> locked (lock (mem s' (Buf i))) \<and>
          refcnt (mem s' (Buf i)) = refcnt (mem s (Buf i)) - 1 \<and>
          (\<forall>p. p \<noteq> Buf i \<longrightarrow> payload (mem s' p) = payload (mem s p)) \<and>
          disk s' = disk s \<and>
          trace s' = trace s @ [Releasesleep (Buf i), Acquire (Headlk ident),
            Store (Buf i) F_refcnt] @ es @ [Release (Headlk ident)] \<and>
          (refcnt (mem s' (Buf i)) = 0 \<longrightarrow>
             members (mem s') (Head ident) = Some (remove1 (Buf i) bs) \<and>
             members (mem s') (Freelist cpu) = Some (Buf i # fs) \<and>
             (\<forall>h \<in> set (sentinels NCPU). h \<noteq> Head ident \<longrightarrow> h \<noteq> Freelist cpu \<longrightarrow>
                members (mem s') h = members (mem s) h) \<and>
             (\<exists>p q r. es = [Push_off, Acquire (Freelk cpu), Store p F_prev, Store q F_next,
                Store (Buf i) F_next, Store (Buf i) F_prev, Store r F_prev,
                Store (Freelist cpu) F_next, Release (Freelk cpu), Pop_off])) \<and>
          (refcnt (mem s' (Buf i)) \<noteq> 0 \<longrightarrow>
             (\<forall>h. members (mem s') h = members (mem s) h) \<and> es = [])))"
proof (intro conjI impI)
  assume "\<not> holdingsleep pd (Buf i) s"
  then show "brelse pd cpu (Buf i) s = Inl (Panic ''brelse'')" by (rule brelse_panic)
next
  assume hold: "holdingsleep pd (Buf i) s"
  let ?b = "Buf i"
  from reachable_inv [OF assms(1)] obtain L where inv: "cache_inv NBUF NCPU s L" ..
  let ?L' = "if refcnt (mem s ?b) = 1
     then (L(Head ident := remove1 ?b (L (Head ident))))(Freelist cpu := ?b # L (Freelist cpu))
     else L"
  have hS: "Head ident \<in> set (sentinels NCPU)" by (simp add: assms(4) hash_less)
  have fS: "Freelist cpu \<in> set (sentinels NCPU)" using assms(3) by simp
  from brelse_inv [OF inv assms(2,3) hold] obtain s' where r: "brelse pd cpu ?b s = Inr s'"
    and inv': "cache_inv NBUF NCPU s' ?L'"
    and y: "pay (mem s') = (pay (mem s))(?b := (pay (mem s) ?b)
        \<lparr>lock := \<lparr>locked = False, pid = 0\<rparr>, refcnt := refcnt (mem s ?b) - 1\<rparr>)"
    and d: "disk s' = disk s" and bh: "?b \<in> set (L (Head ident))"
    unfolding assms(4) by blast
  have m: "members (mem s) (Head ident) = Some (L (Head ident))"
    "members (mem s) (Freelist cpu) = Some (L (Freelist cpu))"
    by (rule inv_members(1) [OF inv hS], rule inv_members(1) [OF inv fS])
  have 1: "\<not> locked (lock (mem s' ?b))" "refcnt (mem s' ?b) = refcnt (mem s ?b) - 1"
    by (simp_all add: read_mem y)
  have 2: "\<forall>p. p \<noteq> ?b \<longrightarrow> payload (mem s' p) = payload (mem s p)"
    using pay_other [OF y] by blast
  have z: "refcnt (mem s' ?b) = 0 \<longleftrightarrow> refcnt (mem s ?b) = 1"
    by (simp add: 1)
  show "\<exists>s' bs fs es.
          members (mem s) (Head ident) = Some bs \<and> Buf i \<in> set bs \<and>
          members (mem s) (Freelist cpu) = Some fs \<and>
          brelse pd cpu (Buf i) s = Inr s' \<and>
          \<not> locked (lock (mem s' (Buf i))) \<and>
          refcnt (mem s' (Buf i)) = refcnt (mem s (Buf i)) - 1 \<and>
          (\<forall>p. p \<noteq> Buf i \<longrightarrow> payload (mem s' p) = payload (mem s p)) \<and>
          disk s' = disk s \<and>
          trace s' = trace s @ [Releasesleep (Buf i), Acquire (Headlk ident),
            Store (Buf i) F_refcnt] @ es @ [Release (Headlk ident)] \<and>
          (refcnt (mem s' (Buf i)) = 0 \<longrightarrow>
             members (mem s') (Head ident) = Some (remove1 (Buf i) bs) \<and>
             members (mem s') (Freelist cpu) = Some (Buf i # fs) \<and>
             (\<forall>h \<in> set (sentinels NCPU). h \<noteq> Head ident \<longrightarrow> h \<noteq> Freelist cpu \<longrightarrow>
                members (mem s') h = members (mem s) h) \<and>
             (\<exists>p q r. es = [Push_off, Acquire (Freelk cpu), Store p F_prev, Store q F_next,
                Store (Buf i) F_next, Store (Buf i) F_prev, Store r F_prev,
                Store (Freelist cpu) F_next, Release (Freelk cpu), Pop_off])) \<and>
          (refcnt (mem s' (Buf i)) \<noteq> 0 \<longrightarrow>
             (\<forall>h. members (mem s') h = members (mem s) h) \<and> es = [])"
  proof (cases "refcnt (mem s ?b) = 1")
    case True
    let ?es = "[Push_off, Acquire (Freelk cpu),
       Store (nxt (mem s) ?b) F_prev, Store (prv (mem s) ?b) F_next,
       Store ?b F_next, Store ?b F_prev,
       Store (((nxt (mem s))(prv (mem s) ?b := nxt (mem s) ?b)) (Freelist cpu)) F_prev,
       Store (Freelist cpu) F_next,
       Release (Freelk cpu), Pop_off]"
    from brelse_move [OF hold True inv_next_other(1) [OF inv hS bh], of cpu] r
    have t: "trace s' = trace s @ [Releasesleep ?b, Acquire (Headlk ident),
            Store ?b F_refcnt] @ ?es @ [Release (Headlk ident)]"
      by (auto simp: assms(4))
    have L': "?L' = (L(Head ident := remove1 ?b (L (Head ident))))
        (Freelist cpu := ?b # L (Freelist cpu))"
      using True by simp
    have a: "members (mem s') (Head ident) = Some (remove1 ?b (L (Head ident)))"
      using inv_members(1) [OF inv' hS] by (simp add: L')
    have b: "members (mem s') (Freelist cpu) = Some (?b # L (Freelist cpu))"
      using inv_members(1) [OF inv' fS] by (simp add: L')
    have c: "\<forall>h \<in> set (sentinels NCPU). h \<noteq> Head ident \<longrightarrow> h \<noteq> Freelist cpu \<longrightarrow>
                members (mem s') h = members (mem s) h"
      using inv_members(1) [OF inv'] inv_members(1) [OF inv] by (simp add: L')
    have e: "\<exists>p q r. ?es = [Push_off, Acquire (Freelk cpu), Store p F_prev, Store q F_next,
                Store (Buf i) F_next, Store (Buf i) F_prev, Store r F_prev,
                Store (Freelist cpu) F_next, Release (Freelk cpu), Pop_off]"
      by blast
    have nz: "refcnt (mem s' (Buf i)) \<noteq> 0 \<longrightarrow>
             (\<forall>h. members (mem s') h = members (mem s) h) \<and> ?es = []"
      using True z by simp
    have zz: "refcnt (mem s' (Buf i)) = 0 \<longrightarrow>
             members (mem s') (Head ident) = Some (remove1 (Buf i) (L (Head ident))) \<and>
             members (mem s') (Freelist cpu) = Some (Buf i # L (Freelist cpu)) \<and>
             (\<forall>h \<in> set (sentinels NCPU). h \<noteq> Head ident \<longrightarrow> h \<noteq> Freelist cpu \<longrightarrow>
                members (mem s') h = members (mem s) h) \<and>
             (\<exists>p q r. ?es = [Push_off, Acquire (Freelk cpu), Store p F_prev, Store q F_next,
                Store (Buf i) F_next, Store (Buf i) F_prev, Store r F_prev,
                Store (Freelist cpu) F_next, Release (Freelk cpu), Pop_off])"
      using a b c e by (intro impI conjI)
    show ?thesis
      by (intro exI [of _ s'] exI [of _ "L (Head ident)"] exI [of _ "L (Freelist cpu)"]
            exI [of _ ?es] conjI m bh r 1 2 d t zz nz)
  next
    case False
    from brelse_keep [OF hold False, of cpu] r
    have t: "trace s' = trace s @ [Releasesleep ?b, Acquire (Headlk ident),
            Store ?b F_refcnt] @ [] @ [Release (Headlk ident)]"
      and n: "nxt (mem s') = nxt (mem s)"
      by (auto simp: assms(4))
    have nz: "refcnt (mem s' (Buf i)) \<noteq> 0 \<longrightarrow>
             (\<forall>h. members (mem s') h = members (mem s) h) \<and> ([] :: event list) = []"
      by (simp add: members_cong(1) [OF n])
    have zz: "refcnt (mem s' (Buf i)) = 0 \<longrightarrow>
             members (mem s') (Head ident) = Some (remove1 (Buf i) (L (Head ident))) \<and>
             members (mem s') (Freelist cpu) = Some (Buf i # L (Freelist cpu)) \<and>
             (\<forall>h \<in> set (sentinels NCPU). h \<noteq> Head ident \<longrightarrow> h \<noteq> Freelist cpu \<longrightarrow>
                members (mem s') h = members (mem s) h) \<and>
             (\<exists>p q r. ([] :: event list) = [Push_off, Acquire (Freelk cpu), Store p F_prev,
                Store q F_next,
                Store (Buf i) F_next, Store (Buf i) F_prev, Store r F_prev,
                Store (Freelist cpu) F_next, Release (Freelk cpu), Pop_off])"
      using False z by simp
    show ?thesis
      by (intro exI [of _ s'] exI [of _ "L (Head ident)"] exI [of _ "L (Freelist cpu)"]
            exI [of _ "[]"] conjI m bh r 1 2 d t zz nz)
  qed
qed


text \<open>An instance: process 1 holds buffer 0 with one reference; process 2 does not.\<close>

theorem C6_brelse_witness:
  "reachable 2 1 (the (run 2 1 [Bread 1 0 0 1 0] (binit 2 1 0 (boot blank)))) \<and>
   holdingsleep 1 (Buf 0) (the (run 2 1 [Bread 1 0 0 1 0] (binit 2 1 0 (boot blank)))) \<and>
   refcnt (mem (the (run 2 1 [Bread 1 0 0 1 0] (binit 2 1 0 (boot blank)))) (Buf 0)) = 1 \<and>
   members (mem (the (run 2 1 [Bread 1 0 0 1 0] (binit 2 1 0 (boot blank))))) (Head 11)
     = Some [Buf 0] \<and>
   members (mem (the (run 2 1 [Bread 1 0 0 1 0] (binit 2 1 0 (boot blank))))) (Freelist 0)
     = Some [Buf 1] \<and>
   brelse 2 0 (Buf 0) (the (run 2 1 [Bread 1 0 0 1 0] (binit 2 1 0 (boot blank))))
     = Inl (Panic ''brelse'') \<and>
   (\<exists>s'. brelse 1 0 (Buf 0) (the (run 2 1 [Bread 1 0 0 1 0] (binit 2 1 0 (boot blank))))
            = Inr s' \<and>
      refcnt (mem s' (Buf 0)) = 0 \<and>
      members (mem s') (Head 11) = Some [] \<and>
      members (mem s') (Freelist 0) = Some [Buf 0, Buf 1])"
proof -
  define S where "S = the (run 2 1 [Bread 1 0 0 1 0] (binit 2 1 0 (boot blank)))"
  have "\<not> Option.is_none (run 2 1 [Bread 1 0 0 1 0] (binit 2 1 0 (boot blank)))"
    by code_simp
  then have "run 2 1 [Bread 1 0 0 1 0] (binit 2 1 0 (boot blank)) = Some S"
    unfolding S_def by (rule run_the)
  from run_reachable [OF reachable.init this] have r: "reachable 2 1 S" by simp
  have h1: "holdingsleep 1 (Buf 0) S" unfolding S_def by code_simp
  have h2: "\<not> holdingsleep 2 (Buf 0) S" unfolding S_def by code_simp
  have rc: "refcnt (mem S (Buf 0)) = 1" unfolding S_def by code_simp
  have id: "11 = hash (dev (mem S (Buf 0))) (blockno (mem S (Buf 0)))"
    unfolding S_def by code_simp
  have m1: "members (mem S) (Head 11) = Some [Buf 0]" unfolding S_def by code_simp
  have m2: "members (mem S) (Freelist 0) = Some [Buf 1]" unfolding S_def by code_simp
  have i: "(0::nat) < 2" and c: "(0::nat) < 1" by simp_all
  note th = C6_brelse [OF r i c id]
  from th [of 2] h2 have p: "brelse 2 0 (Buf 0) S = Inl (Panic ''brelse'')" by blast
  from th [of 1] h1 obtain s' bs fs where
    a: "members (mem S) (Head 11) = Some bs" "members (mem S) (Freelist 0) = Some fs"
      "brelse 1 0 (Buf 0) S = Inr s'"
      "refcnt (mem s' (Buf 0)) = refcnt (mem S (Buf 0)) - 1"
    and b: "refcnt (mem s' (Buf 0)) = 0 \<longrightarrow>
             members (mem s') (Head 11) = Some (remove1 (Buf 0) bs) \<and>
             members (mem s') (Freelist 0) = Some (Buf 0 # fs)"
    by blast
  from a(1,2) m1 m2 have "bs = [Buf 0]" "fs = [Buf 1]" by simp_all
  moreover from a(4) rc have z: "refcnt (mem s' (Buf 0)) = 0" by simp
  ultimately have "members (mem s') (Head 11) = Some []"
    "members (mem s') (Freelist 0) = Some [Buf 0, Buf 1]"
    using b by simp_all
  with a(3) z have "\<exists>s'. brelse 1 0 (Buf 0) S = Inr s' \<and>
      refcnt (mem s' (Buf 0)) = 0 \<and>
      members (mem s') (Head 11) = Some [] \<and>
      members (mem s') (Freelist 0) = Some [Buf 0, Buf 1]"
    by blast
  with r h1 rc m1 m2 p show ?thesis unfolding S_def [symmetric] by blast
qed

subsection \<open>A miss\<close>

text \<open>
  C5. In a state of a booted kernel, when the bucket scan of \<open>bget(dev, blockno)\<close> finds no
  buffer for the block and \<open>b\<close> is the buffer at the \<open>prev\<close> end of the first free list
  that is not empty, \<open>bget\<close> returns \<open>b\<close>: it has taken \<open>b\<close> from the end of that free
  list and put it first in the bucket of the block, with \<open>dev\<close> and \<open>blockno\<close> those of
  the block, \<open>valid\<close> 0 and \<open>refcnt\<close> 1. \<open>bread\<close> then transfers the block from the disk
  into \<open>data\<close> and stores \<open>valid\<close> 1, in this order, and returns \<open>b\<close>. In any state, a
  buffer that \<open>bread\<close> returns has \<open>valid\<close> not 0.
\<close>

theorem C5_miss_recycles:
  assumes "booted NBUF NCPU s" and "cpu < NCPU"
    and "lookup s dv bn = Some None"
    and "victim NCPU cpu (mem s) = Some (c, b)"
  shows "(\<exists>s1 s2 bs fs.
     members (mem s) (Head (hash dv bn)) = Some bs \<and>
     members (mem s) (Freelist c) = Some (fs @ [b]) \<and>
     bget NCPU pd cpu ticks dv bn s = Some (Inr (b, s1)) \<and>
     members (mem s1) (Head (hash dv bn)) = Some (b # bs) \<and>
     members (mem s1) (Freelist c) = Some fs \<and>
     dev (mem s1 b) = dv \<and> blockno (mem s1 b) = bn \<and>
     valid (mem s1 b) = 0 \<and> refcnt (mem s1 b) = 1 \<and>
     bread NCPU pd cpu ticks dv bn s = Some (Inr (b, s2)) \<and>
     trace s2 = trace s1 @ [Disk_rw b False, Store b F_valid] \<and>
     members (mem s2) (Head (hash dv bn)) = Some (b # bs) \<and>
     members (mem s2) (Freelist c) = Some fs \<and>
     dev (mem s2 b) = dv \<and> blockno (mem s2 b) = bn \<and> refcnt (mem s2 b) = 1 \<and>
     valid (mem s2 b) = 1 \<and> data (mem s2 b) = disk s (dv, bn) \<and> disk s2 = disk s) \<and>
   (\<forall>t b' t'. bread NCPU pd cpu ticks dv bn t = Some (Inr (b', t')) \<longrightarrow>
      valid (mem t' b') \<noteq> 0)"
proof (rule conjI)
  let ?h = "Head (hash dv bn)"
  from booted_inv [OF assms(1)] obtain L where
    inv: "cache_inv NBUF NCPU s L" and fi: "free_inv NCPU s L" by blast
  note c = inv_victim_Some(1) [OF inv assms(2,4)]
  note Lc = inv_victim_Some(2) [OF inv assms(2,4)]
  have "b \<in> set (L (Freelist c))" by (subst Lc) simp
  with fi c have rc: "refcnt (mem s b) = 0" by (simp add: free_inv_def)
  let ?L' = "(L(Freelist c := butlast (L (Freelist c))))(?h := b # L ?h)"
  from bget_miss_inv [OF inv assms(2,3,4) rc, of pd ticks]
  obtain s1 :: machine where g: "bget NCPU pd cpu ticks dv bn s = Some (Inr (b, s1))"
    and inv1: "cache_inv NBUF NCPU s1 ?L'"
    and y1: "pay (mem s1) = (pay (mem s))(b := (pay (mem s) b)\<lparr>dev := dv, blockno := bn,
        valid := 0, refcnt := 1, lock := \<lparr>locked = True, pid = pd\<rparr>\<rparr>)"
    and d1: "disk s1 = disk s"
    by (elim exE conjE) (erule that)
  have hS: "?h \<in> set (sentinels NCPU)" and fS: "Freelist c \<in> set (sentinels NCPU)"
    using c by (simp_all add: hash_less)
  have m0: "members (mem s) ?h = Some (L ?h)"
    "members (mem s) (Freelist c) = Some (butlast (L (Freelist c)) @ [b])"
    using inv_members(1) [OF inv hS] inv_members(1) [OF inv fS] Lc by simp_all
  have m1: "members (mem s1) ?h = Some (b # L ?h)"
    "members (mem s1) (Freelist c) = Some (butlast (L (Freelist c)))"
    using inv_members(1) [OF inv1 hS] inv_members(1) [OF inv1 fS] by simp_all
  have f1: "dev (mem s1 b) = dv" "blockno (mem s1 b) = bn" "valid (mem s1 b) = 0"
    "refcnt (mem s1 b) = 1"
    by (simp_all add: read_mem y1)
  define s2 where "s2 = store_valid b 1 (virtio_disk_rw b False s1)"
  have r: "bread NCPU pd cpu ticks dv bn s = Some (Inr (b, s2))"
    using g f1(3) by (simp add: bread_def s2_def)
  have t2: "trace s2 = trace s1 @ [Disk_rw b False, Store b F_valid]"
    by (simp add: s2_def)
  have n2: "nxt (mem s2) = nxt (mem s1)" by (simp add: s2_def effect)
  have m2: "members (mem s2) ?h = Some (b # L ?h)"
    "members (mem s2) (Freelist c) = Some (butlast (L (Freelist c)))"
    using m1 by (simp_all add: members_cong(1) [OF n2])
  have y2: "pay (mem s2) = (pay (mem s1))(b := (pay (mem s1) b)
        \<lparr>data := disk s1 (dev (pay (mem s1) b), blockno (pay (mem s1) b)), valid := 1\<rparr>)"
    by (simp add: s2_def effect)
  have f2: "dev (mem s2 b) = dv" "blockno (mem s2 b) = bn" "refcnt (mem s2 b) = 1"
    "valid (mem s2 b) = 1" "data (mem s2 b) = disk s (dv, bn)"
    by (simp_all add: read_mem y2 y1 d1)
  have d2: "disk s2 = disk s" by (simp add: s2_def d1)
  from m0 g m1 f1 r t2 m2 f2 d2
  show "\<exists>s1 s2 bs fs.
     members (mem s) (Head (hash dv bn)) = Some bs \<and>
     members (mem s) (Freelist c) = Some (fs @ [b]) \<and>
     bget NCPU pd cpu ticks dv bn s = Some (Inr (b, s1)) \<and>
     members (mem s1) (Head (hash dv bn)) = Some (b # bs) \<and>
     members (mem s1) (Freelist c) = Some fs \<and>
     dev (mem s1 b) = dv \<and> blockno (mem s1 b) = bn \<and>
     valid (mem s1 b) = 0 \<and> refcnt (mem s1 b) = 1 \<and>
     bread NCPU pd cpu ticks dv bn s = Some (Inr (b, s2)) \<and>
     trace s2 = trace s1 @ [Disk_rw b False, Store b F_valid] \<and>
     members (mem s2) (Head (hash dv bn)) = Some (b # bs) \<and>
     members (mem s2) (Freelist c) = Some fs \<and>
     dev (mem s2 b) = dv \<and> blockno (mem s2 b) = bn \<and> refcnt (mem s2 b) = 1 \<and>
     valid (mem s2 b) = 1 \<and> data (mem s2 b) = disk s (dv, bn) \<and> disk s2 = disk s"
    by (intro exI [of _ s1] exI [of _ s2] exI [of _ "L ?h"]
          exI [of _ "butlast (L (Freelist c))"] conjI)
next
  show "\<forall>t b' t'. bread NCPU pd cpu ticks dv bn t = Some (Inr (b', t')) \<longrightarrow>
      valid (mem t' b') \<noteq> 0"
    by (auto simp: bread_def Let_def mem_store split: option.splits sum.splits if_splits)
qed

text \<open>An instance: the first \<open>bread\<close> after \<open>binit\<close>, with two buffers and one CPU.\<close>

theorem C5_miss_recycles_witness:
  "booted 2 1 (binit 2 1 0 (boot blank)) \<and>
   lookup (binit 2 1 0 (boot blank)) 1 0 = Some None \<and>
   victim 1 0 (mem (binit 2 1 0 (boot blank))) = Some (0, Buf 0) \<and>
   members (mem (binit 2 1 0 (boot blank))) (Head 11) = Some [] \<and>
   members (mem (binit 2 1 0 (boot blank))) (Freelist 0) = Some [Buf 1, Buf 0] \<and>
   (\<exists>s2. bread 1 1 0 0 1 0 (binit 2 1 0 (boot blank)) = Some (Inr (Buf 0, s2)) \<and>
      members (mem s2) (Head 11) = Some [Buf 0] \<and>
      members (mem s2) (Freelist 0) = Some [Buf 1] \<and>
      dev (mem s2 (Buf 0)) = 1 \<and> blockno (mem s2 (Buf 0)) = 0 \<and>
      refcnt (mem s2 (Buf 0)) = 1 \<and> valid (mem s2 (Buf 0)) = 1 \<and>
      valid (mem s2 (Buf 0)) \<noteq> 0)"
proof -
  define S where "S = binit 2 1 0 (boot blank)"
  have bS: "booted 2 1 S" unfolding S_def by (rule booted.boot) simp
  have 1: "lookup S 1 0 = Some None" unfolding S_def by code_simp
  have 2: "victim 1 0 (mem S) = Some (0, Buf 0)" unfolding S_def by code_simp
  have 3: "members (mem S) (Head 11) = Some []" unfolding S_def by code_simp
  have 4: "members (mem S) (Freelist 0) = Some [Buf 1, Buf 0]" unfolding S_def by code_simp
  have h: "hash 1 0 = 11" by code_simp
  from C5_miss_recycles [OF bS _ 1 2, of 1 0, THEN conjunct1] 3 4 h
  obtain s2 :: machine where s2: "bread 1 1 0 0 1 0 S = Some (Inr (Buf 0, s2))"
    "members (mem s2) (Head 11) = Some [Buf 0]"
    "members (mem s2) (Freelist 0) = Some [Buf 1]"
    "dev (mem s2 (Buf 0)) = 1" "blockno (mem s2 (Buf 0)) = 0"
    "refcnt (mem s2 (Buf 0)) = 1" "valid (mem s2 (Buf 0)) = 1"
    by auto
  from C5_miss_recycles [OF bS _ 1 2, of 1 0, THEN conjunct2] s2(1)
  have 5: "valid (mem s2 (Buf 0)) \<noteq> 0" by simp
  from bS 1 2 3 4 s2 5 show ?thesis unfolding S_def [symmetric] by blast
qed

subsection \<open>The order of eviction\<close>

lemma find_before:
  assumes "x \<in> set xs" "P x"
  shows "find P xs =
     (case find P (takeWhile (\<lambda>y. y \<noteq> x) xs) of None \<Rightarrow> Some x | Some y \<Rightarrow> Some y)"
  using assms(1)
proof (induction xs)
  case Nil
  then show ?case by simp
next
  case (Cons a xs)
  show ?case
  proof (cases "a = x")
    case True
    with assms(2) show ?thesis by simp
  next
    case False
    with Cons.prems have "x \<in> set xs" by simp
    from Cons.IH [OF this] False show ?thesis by simp
  qed
qed

lemma inv_victim_before:
  assumes inv: "cache_inv NBUF NCPU s L" and cpu: "cpu < NCPU" and c: "c < NCPU"
    and ne: "L (Freelist c) \<noteq> []"
  shows "victim NCPU cpu (mem s) =
     (case find (\<lambda>c'. L (Freelist c') \<noteq> []) (takeWhile (\<lambda>c'. c' \<noteq> c) (pool_order NCPU cpu)) of
        None \<Rightarrow> Some (c, last (L (Freelist c)))
      | Some c' \<Rightarrow> Some (c', last (L (Freelist c'))))"
proof -
  have "c \<in> set (pool_order NCPU cpu)" using c by (simp add: pool_order_def)
  from find_before [of c "pool_order NCPU cpu" "\<lambda>c'. L (Freelist c') \<noteq> []", OF this ne]
  show ?thesis
    by (simp add: inv_victim [OF inv cpu] split: option.splits)
qed

lemma pool_order_before:
  assumes "cpu' < NCPU" and "c \<in> set (takeWhile (\<lambda>c'. c' \<noteq> cpu) (pool_order NCPU cpu'))"
  shows "c < NCPU" "c \<noteq> cpu"
proof -
  from set_takeWhileD [OF assms(2)] have "c \<in> set (pool_order NCPU cpu')" "c \<noteq> cpu"
    by simp_all
  then show "c \<noteq> cpu" by simp
  from \<open>c \<in> set (pool_order NCPU cpu')\<close> assms(1) show "c < NCPU"
    by (auto simp: pool_order_def)
qed

lemma brelse_free:
  assumes inv: "cache_inv NBUF NCPU s L" and i: "i < NBUF" and cpu: "cpu < NCPU"
    and hold: "holdingsleep pd (Buf i) s" and rc: "refcnt (mem s (Buf i)) = 1"
  shows "\<exists>s' L'. brelse pd cpu (Buf i) s = Inr s' \<and> cache_inv NBUF NCPU s' L' \<and>
     L' (Freelist cpu) = Buf i # L (Freelist cpu) \<and>
     (\<forall>c. c \<noteq> cpu \<longrightarrow> L' (Freelist c) = L (Freelist c)) \<and>
     (\<forall>h. set (L' (Head h)) \<subseteq> set (L (Head h))) \<and>
     pay (mem s') = (pay (mem s))(Buf i := (pay (mem s) (Buf i))
        \<lparr>lock := \<lparr>locked = False, pid = 0\<rparr>, refcnt := 0\<rparr>)"
proof -
  let ?h = "Head (hash (dev (mem s (Buf i))) (blockno (mem s (Buf i))))"
  let ?L' = "(L(?h := remove1 (Buf i) (L ?h)))(Freelist cpu := Buf i # L (Freelist cpu))"
  have "\<exists>s'. brelse pd cpu (Buf i) s = Inr s' \<and> cache_inv NBUF NCPU s' ?L' \<and>
     pay (mem s') = (pay (mem s))(Buf i := (pay (mem s) (Buf i))
        \<lparr>lock := \<lparr>locked = False, pid = 0\<rparr>, refcnt := 0\<rparr>) \<and> disk s' = disk s"
    using brelse_inv(1) [OF inv i cpu hold] by (simp add: rc del: fun_upd_apply)
  then obtain s' :: machine where s': "brelse pd cpu (Buf i) s = Inr s'"
    "cache_inv NBUF NCPU s' ?L'"
    "pay (mem s') = (pay (mem s))(Buf i := (pay (mem s) (Buf i))
        \<lparr>lock := \<lparr>locked = False, pid = 0\<rparr>, refcnt := 0\<rparr>)"
    by (elim exE conjE) (erule that)
  have "set (?L' (Head h)) \<subseteq> set (L (Head h))" for h
    using set_remove1_subset [of "Buf i" "L (Head h)"] by (cases "Head h = ?h") simp_all
  then have "\<forall>h. set (?L' (Head h)) \<subseteq> set (L (Head h))" ..
  moreover have "?L' (Freelist cpu) = Buf i # L (Freelist cpu)" by simp
  moreover have "\<forall>c. c \<noteq> cpu \<longrightarrow> ?L' (Freelist c) = L (Freelist c)" by simp
  ultimately show ?thesis using s' by (intro exI [of _ s'] exI [of _ ?L'] conjI)
qed

text \<open>
  C4, amended. In a state of a booted kernel, let two buffers \<open>Buf i\<close> and \<open>Buf j\<close> be held
  with one reference each, and be released in this order on CPU \<open>cpu\<close>, whose free list
  has the members \<open>fs\<close>. Both calls of \<open>brelse\<close> return; each puts its buffer first in
  the free list of \<open>cpu\<close>, which is \<open>Buf j # Buf i # fs\<close> then. A \<open>bget\<close> on CPU \<open>cpu'\<close>
  that follows, for a block that is not cached, visits the free list of \<open>cpu'\<close> first and
  then those of the other CPUs in ascending order, and returns the buffer at the \<open>prev\<close>
  end of the first list that is not empty. When the lists it visits before that of
  \<open>cpu\<close> are empty, this is the last member of \<open>Buf j # Buf i # fs\<close>, and the others stay
  in the list: with \<open>fs\<close> empty, the list held the two buffers only, and \<open>bget\<close> returns
  \<open>Buf i\<close>, released first, and leaves \<open>Buf j\<close>. Otherwise \<open>bget\<close> returns the last member of
  an earlier list \<open>c\<close>, which is neither \<open>Buf i\<close> nor \<open>Buf j\<close>, and the free list of \<open>cpu\<close>
  is as the releases have left it. \<open>bread\<close> returns the same buffer as \<open>bget\<close>.
\<close>

theorem C4_eviction_order:
  assumes "booted NBUF NCPU s" and "i < NBUF" and "j < NBUF" and "i \<noteq> j"
    and "cpu < NCPU" and "cpu' < NCPU"
    and "holdingsleep pa (Buf i) s" and "refcnt (mem s (Buf i)) = 1"
    and "holdingsleep pb (Buf j) s" and "refcnt (mem s (Buf j)) = 1"
    and "members (mem s) (Freelist cpu) = Some fs"
    and "lookup s dv bn = Some None"
  shows "\<exists>s1 s2 c b s3.
     brelse pa cpu (Buf i) s = Inr s1 \<and>
     members (mem s1) (Freelist cpu) = Some (Buf i # fs) \<and>
     brelse pb cpu (Buf j) s1 = Inr s2 \<and>
     members (mem s2) (Freelist cpu) = Some (Buf j # Buf i # fs) \<and>
     victim NCPU cpu' (mem s2) = Some (c, b) \<and>
     bget NCPU pd cpu' ticks dv bn s2 = Some (Inr (b, s3)) \<and>
     buf_of (bread NCPU pd cpu' ticks dv bn s2) = Some b \<and>
     (if \<forall>c' \<in> set (takeWhile (\<lambda>c'. c' \<noteq> cpu) (pool_order NCPU cpu')).
           members (mem s) (Freelist c') = Some []
      then c = cpu \<and> b = last (Buf i # fs) \<and>
           members (mem s3) (Freelist cpu) = Some (Buf j # butlast (Buf i # fs))
      else c \<noteq> cpu \<and> c \<in> set (takeWhile (\<lambda>c'. c' \<noteq> cpu) (pool_order NCPU cpu')) \<and>
           (\<exists>gs. members (mem s) (Freelist c) = Some (gs @ [b]) \<and>
                 members (mem s3) (Freelist c) = Some gs) \<and>
           b \<notin> set (Buf j # Buf i # fs) \<and>
           members (mem s3) (Freelist cpu) = Some (Buf j # Buf i # fs))"
proof -
  let ?f = "Freelist cpu" and ?h = "Head (hash dv bn)"
  let ?pre = "takeWhile (\<lambda>c'. c' \<noteq> cpu) (pool_order NCPU cpu')"
  let ?E = "\<forall>c' \<in> set ?pre. members (mem s) (Freelist c') = Some []"
  from booted_inv [OF assms(1)] obtain L where
    inv: "cache_inv NBUF NCPU s L" and fi: "free_inv NCPU s L" by blast
  have fS: "?f \<in> set (sentinels NCPU)" using assms(5) by simp
  have Lf: "L ?f = fs" using inv_members(1) [OF inv fS] assms(11) by simp
  from brelse_free [OF inv assms(2,5,7,8)]
  obtain s1 :: machine and L1 where r1: "brelse pa cpu (Buf i) s = Inr s1"
    and inv1: "cache_inv NBUF NCPU s1 L1"
    and L1f: "L1 ?f = Buf i # L ?f"
    and L1o: "\<forall>c. c \<noteq> cpu \<longrightarrow> L1 (Freelist c) = L (Freelist c)"
    and L1h: "\<forall>h. set (L1 (Head h)) \<subseteq> set (L (Head h))"
    and y1: "pay (mem s1) = (pay (mem s))(Buf i := (pay (mem s) (Buf i))
        \<lparr>lock := \<lparr>locked = False, pid = 0\<rparr>, refcnt := 0\<rparr>)"
    by (elim exE conjE) (erule that)
  have m1: "members (mem s1) ?f = Some (Buf i # fs)"
    using inv_members(1) [OF inv1 fS] L1f Lf by simp
  have hj: "holdingsleep pb (Buf j) s1" and rj: "refcnt (mem s1 (Buf j)) = 1"
    using assms(4,9,10) by (simp_all add: holdingsleep_def read_mem y1)
  from brelse_free [OF inv1 assms(3,5) hj rj]
  obtain s2 :: machine and L2 where r2: "brelse pb cpu (Buf j) s1 = Inr s2"
    and inv2: "cache_inv NBUF NCPU s2 L2"
    and L2f: "L2 ?f = Buf j # L1 ?f"
    and L2o: "\<forall>c. c \<noteq> cpu \<longrightarrow> L2 (Freelist c) = L1 (Freelist c)"
    and L2h: "\<forall>h. set (L2 (Head h)) \<subseteq> set (L1 (Head h))"
    and y2: "pay (mem s2) = (pay (mem s1))(Buf j := (pay (mem s1) (Buf j))
        \<lparr>lock := \<lparr>locked = False, pid = 0\<rparr>, refcnt := 0\<rparr>)"
    by (elim exE conjE) (erule that)
  have L2f': "L2 ?f = Buf j # Buf i # fs" by (simp add: L2f L1f Lf)
  have m2: "members (mem s2) ?f = Some (Buf j # Buf i # fs)"
    using inv_members(1) [OF inv2 fS] L2f' by simp
  have ne: "L2 ?f \<noteq> []" by (simp add: L2f')
  have pre: "members (mem s) (Freelist c) = Some (L2 (Freelist c))" "c < NCPU" "c \<noteq> cpu"
    if "c \<in> set ?pre" for c
  proof -
    from pool_order_before [OF assms(6) that] show c: "c < NCPU" "c \<noteq> cpu" .
    then have "Freelist c \<in> set (sentinels NCPU)" by simp
    from inv_members(1) [OF inv this] L1o L2o c(2)
    show "members (mem s) (Freelist c) = Some (L2 (Freelist c))" by simp
  qed
  have E: "?E \<longleftrightarrow> find (\<lambda>c'. L2 (Freelist c') \<noteq> []) ?pre = None"
    unfolding find_None_iff using pre(1) by auto
  note vb = inv_victim_before [OF inv2 assms(6,5) ne]
  have id: "dev (mem s2 x) = dev (mem s x)" "blockno (mem s2 x) = blockno (mem s x)" for x
    by (simp_all add: read_mem y2 y1)
  have rc2: "refcnt (mem s2 x) = (if x = Buf i \<or> x = Buf j then 0 else refcnt (mem s x))" for x
    by (simp add: read_mem y2 y1)
  have miss: "lookup s2 dv bn = Some None"
  proof -
    from assms(12) have "find (\<lambda>x. dev (mem s x) = dv \<and> blockno (mem s x) = bn) (L ?h) = None"
      by (simp add: inv_lookup [OF inv])
    then have n: "\<forall>x \<in> set (L ?h). \<not> (dev (mem s x) = dv \<and> blockno (mem s x) = bn)"
      by (simp add: find_None_iff)
    have "set (L2 ?h) \<subseteq> set (L ?h)" using L1h L2h by blast
    with n have "\<forall>x \<in> set (L2 ?h). \<not> (dev (mem s2 x) = dv \<and> blockno (mem s2 x) = bn)"
      unfolding id by blast
    then have "find (\<lambda>x. dev (mem s2 x) = dv \<and> blockno (mem s2 x) = bn) (L2 ?h) = None"
      by (simp add: find_None_iff)
    then show ?thesis by (simp add: inv_lookup [OF inv2])
  qed
  show ?thesis
  proof (cases ?E)
    case True
    define b where "b = last (Buf i # fs)"
    have lb: "last (L2 ?f) = b" by (simp add: L2f' b_def del: last.simps add: last_ConsR)
    from True E have "find (\<lambda>c'. L2 (Freelist c') \<noteq> []) ?pre = None" by simp
    with vb lb have v: "victim NCPU cpu' (mem s2) = Some (cpu, b)" by simp
    have rc: "refcnt (mem s2 b) = 0"
    proof (cases "b = Buf i \<or> b = Buf j")
      case True
      then show ?thesis by (simp add: rc2)
    next
      case False
      have "b \<in> set (Buf i # fs)" unfolding b_def by (rule last_in_set) simp
      with False have "b \<in> set (L ?f)" by (simp add: Lf)
      with fi assms(5) have "refcnt (mem s b) = 0" by (simp add: free_inv_def)
      with False show ?thesis by (simp add: rc2)
    qed
    let ?L3 = "(L2(Freelist cpu := butlast (L2 (Freelist cpu))))(?h := b # L2 ?h)"
    from bget_miss_inv [OF inv2 assms(6) miss v rc, of pd ticks]
    obtain s3 :: machine where g: "bget NCPU pd cpu' ticks dv bn s2 = Some (Inr (b, s3))"
      and inv3: "cache_inv NBUF NCPU s3 ?L3"
      by (elim exE conjE) (erule that)
    have "?L3 ?f = Buf j # butlast (Buf i # fs)" by (simp add: L2f')
    with inv_members(1) [OF inv3 fS]
    have m3: "members (mem s3) ?f = Some (Buf j # butlast (Buf i # fs))" by simp
    have br: "buf_of (bread NCPU pd cpu' ticks dv bn s2) = Some b"
      using g by (simp add: bread_def)
    have fin: "if ?E then cpu = cpu \<and> b = last (Buf i # fs) \<and>
           members (mem s3) (Freelist cpu) = Some (Buf j # butlast (Buf i # fs))
      else cpu \<noteq> cpu \<and> cpu \<in> set ?pre \<and>
           (\<exists>gs. members (mem s) (Freelist cpu) = Some (gs @ [b]) \<and>
                 members (mem s3) (Freelist cpu) = Some gs) \<and>
           b \<notin> set (Buf j # Buf i # fs) \<and>
           members (mem s3) (Freelist cpu) = Some (Buf j # Buf i # fs)"
      by (subst if_P [OF True]) (intro conjI refl b_def m3)
    from r1 m1 r2 m2 v g br fin show ?thesis
      by (intro exI [of _ s1] exI [of _ s2] exI [of _ cpu] exI [of _ b] exI [of _ s3] conjI)
  next
    case False
    with E obtain c where f: "find (\<lambda>c'. L2 (Freelist c') \<noteq> []) ?pre = Some c"
      by auto
    then have cp: "c \<in> set ?pre" and cne: "L2 (Freelist c) \<noteq> []"
      by (auto simp: find_Some_iff)
    note c = pre [OF cp]
    define b where "b = last (L2 (Freelist c))"
    have cS: "Freelist c \<in> set (sentinels NCPU)" using c(2) by simp
    from vb f have v: "victim NCPU cpu' (mem s2) = Some (c, b)" by (simp add: b_def)
    have bc: "b \<in> set (L2 (Freelist c))" unfolding b_def by (rule last_in_set) (rule cne)
    have L2c: "L2 (Freelist c) = L (Freelist c)" using L1o L2o c(3) by simp
    have bf: "b \<notin> set (L2 ?f)"
      by (rule linked_disjoint [OF cache_invD(1) [OF inv2] cS fS _ bc]) (use c(3) in simp)
    note bij = bf [unfolded L2f']
    from bc fi c(2) have "refcnt (mem s b) = 0" by (simp add: free_inv_def L2c)
    then have rc: "refcnt (mem s2 b) = 0" by (simp add: rc2)
    let ?L3 = "(L2(Freelist c := butlast (L2 (Freelist c))))(?h := b # L2 ?h)"
    from bget_miss_inv [OF inv2 assms(6) miss v rc, of pd ticks]
    obtain s3 :: machine where g: "bget NCPU pd cpu' ticks dv bn s2 = Some (Inr (b, s3))"
      and inv3: "cache_inv NBUF NCPU s3 ?L3"
      by (elim exE conjE) (erule that)
    have "?L3 ?f = Buf j # Buf i # fs" using c(3) by (simp add: L2f')
    with inv_members(1) [OF inv3 fS]
    have m3: "members (mem s3) ?f = Some (Buf j # Buf i # fs)" by simp
    have "?L3 (Freelist c) = butlast (L2 (Freelist c))" by simp
    with inv_members(1) [OF inv3 cS]
    have m3c: "members (mem s3) (Freelist c) = Some (butlast (L2 (Freelist c)))" by simp
    have "L2 (Freelist c) = butlast (L2 (Freelist c)) @ [b]"
      using cne by (simp add: b_def)
    with c(1) have m0c: "members (mem s) (Freelist c) = Some (butlast (L2 (Freelist c)) @ [b])"
      by simp
    have br: "buf_of (bread NCPU pd cpu' ticks dv bn s2) = Some b"
      using g by (simp add: bread_def)
    have ex: "\<exists>gs. members (mem s) (Freelist c) = Some (gs @ [b]) \<and>
                 members (mem s3) (Freelist c) = Some gs"
      using m0c m3c by (intro exI [of _ "butlast (L2 (Freelist c))"] conjI)
    have fin: "if ?E then c = cpu \<and> b = last (Buf i # fs) \<and>
           members (mem s3) (Freelist cpu) = Some (Buf j # butlast (Buf i # fs))
      else c \<noteq> cpu \<and> c \<in> set ?pre \<and>
           (\<exists>gs. members (mem s) (Freelist c) = Some (gs @ [b]) \<and>
                 members (mem s3) (Freelist c) = Some gs) \<and>
           b \<notin> set (Buf j # Buf i # fs) \<and>
           members (mem s3) (Freelist cpu) = Some (Buf j # Buf i # fs)"
      using c(3) cp ex bij m3 by (subst if_not_P [OF False]) (intro conjI; assumption)
    from r1 m1 r2 m2 v g br fin show ?thesis
      by (intro exI [of _ s1] exI [of _ s2] exI [of _ c] exI [of _ b] exI [of _ s3] conjI)
  qed
qed

text \<open>An instance with two buffers and one CPU: block (1, 0) is read into buffer 0 and
  block (1, 1) into buffer 1; they are released in this order; block (1, 2) is then
  given buffer 0.\<close>

theorem C4_eviction_order_witness:
  "booted 2 1 (the (run 2 1 [Bread 1 0 0 1 0, Bread 1 0 0 1 1] (binit 2 1 0 (boot blank)))) \<and>
   dev (mem (the (run 2 1 [Bread 1 0 0 1 0, Bread 1 0 0 1 1] (binit 2 1 0 (boot blank))))
     (Buf 0)) = 1 \<and>
   blockno (mem (the (run 2 1 [Bread 1 0 0 1 0, Bread 1 0 0 1 1] (binit 2 1 0 (boot blank))))
     (Buf 0)) = 0 \<and>
   dev (mem (the (run 2 1 [Bread 1 0 0 1 0, Bread 1 0 0 1 1] (binit 2 1 0 (boot blank))))
     (Buf 1)) = 1 \<and>
   blockno (mem (the (run 2 1 [Bread 1 0 0 1 0, Bread 1 0 0 1 1] (binit 2 1 0 (boot blank))))
     (Buf 1)) = 1 \<and>
   members (mem (the (run 2 1 [Bread 1 0 0 1 0, Bread 1 0 0 1 1] (binit 2 1 0 (boot blank)))))
     (Freelist 0) = Some [] \<and>
   lookup (the (run 2 1 [Bread 1 0 0 1 0, Bread 1 0 0 1 1] (binit 2 1 0 (boot blank)))) 1 2
     = Some None \<and>
   (\<exists>s1 s2 s3.
      brelse 1 0 (Buf 0)
        (the (run 2 1 [Bread 1 0 0 1 0, Bread 1 0 0 1 1] (binit 2 1 0 (boot blank)))) = Inr s1 \<and>
      brelse 1 0 (Buf 1) s1 = Inr s2 \<and>
      members (mem s2) (Freelist 0) = Some [Buf 1, Buf 0] \<and>
      bget 1 1 0 0 1 2 s2 = Some (Inr (Buf 0, s3)) \<and>
      members (mem s3) (Freelist 0) = Some [Buf 1] \<and>
      buf_of (bread 1 1 0 0 1 2 s2) = Some (Buf 0))"
proof -
  define S where "S = the (run 2 1 [Bread 1 0 0 1 0, Bread 1 0 0 1 1] (binit 2 1 0 (boot blank)))"
  have "\<not> Option.is_none (run 2 1 [Bread 1 0 0 1 0, Bread 1 0 0 1 1] (binit 2 1 0 (boot blank)))"
    by code_simp
  then have "run 2 1 [Bread 1 0 0 1 0, Bread 1 0 0 1 1] (binit 2 1 0 (boot blank)) = Some S"
    unfolding S_def by (rule run_the)
  from run_booted [OF booted.boot this] have bS: "booted 2 1 S" by simp
  have a: "dev (mem S (Buf 0)) = 1" "blockno (mem S (Buf 0)) = 0"
    "dev (mem S (Buf 1)) = 1" "blockno (mem S (Buf 1)) = 1"
    unfolding S_def by code_simp+
  have h0: "holdingsleep 1 (Buf 0) S" unfolding S_def by code_simp
  have h1: "holdingsleep 1 (Buf 1) S" unfolding S_def by code_simp
  have r0: "refcnt (mem S (Buf 0)) = 1" unfolding S_def by code_simp
  have r1: "refcnt (mem S (Buf 1)) = 1" unfolding S_def by code_simp
  have m: "members (mem S) (Freelist 0) = Some []" unfolding S_def by code_simp
  have l: "lookup S 1 2 = Some None" unfolding S_def by code_simp
  have n: "(0::nat) < 2" "(1::nat) < 2" "(0::nat) \<noteq> 1" "(0::nat) < 1" by simp_all
  have p: "takeWhile (\<lambda>c'. c' \<noteq> 0) (pool_order 1 0) = []" by (simp add: pool_order_def)
  from C4_eviction_order [OF bS n(1,2,3,4,4) h0 r0 h1 r1 m l, of 1 0]
  have "\<exists>s1 s2 s3.
      brelse 1 0 (Buf 0) S = Inr s1 \<and>
      brelse 1 0 (Buf 1) s1 = Inr s2 \<and>
      members (mem s2) (Freelist 0) = Some [Buf 1, Buf 0] \<and>
      bget 1 1 0 0 1 2 s2 = Some (Inr (Buf 0, s3)) \<and>
      members (mem s3) (Freelist 0) = Some [Buf 1] \<and>
      buf_of (bread 1 1 0 0 1 2 s2) = Some (Buf 0)"
    unfolding p by simp blast
  with bS a m l show ?thesis unfolding S_def [symmetric] by (intro conjI)
qed

text \<open>
  Three buffers, two CPUs. Blocks (1, 0) and (1, 1) are read on CPU 0 into buffers 0
  and 1, and released in this order on CPU 1, whose free list holds these two buffers
  only then, buffer 1 first. The free list of CPU 0 holds buffer 2, which has never been
  used. A \<open>bread\<close> of block (1, 2) on CPU 0 takes buffer 2 from the list of CPU 0, not
  buffer 0, and leaves the list of CPU 1 as it is.
\<close>

theorem C4_other_pool_counterexample:
  "booted 3 2 (the (run 3 2 [Bread 1 0 0 1 0, Bread 1 0 0 1 1, Brelse 1 1 0, Brelse 1 1 1]
                  (binit 3 2 0 (boot blank)))) \<and>
   members (mem (the (run 3 2 [Bread 1 0 0 1 0, Bread 1 0 0 1 1, Brelse 1 1 0, Brelse 1 1 1]
                  (binit 3 2 0 (boot blank))))) (Freelist 1) = Some [Buf 1, Buf 0] \<and>
   members (mem (the (run 3 2 [Bread 1 0 0 1 0, Bread 1 0 0 1 1, Brelse 1 1 0, Brelse 1 1 1]
                  (binit 3 2 0 (boot blank))))) (Freelist 0) = Some [Buf 2] \<and>
   dev (mem (the (run 3 2 [Bread 1 0 0 1 0, Bread 1 0 0 1 1, Brelse 1 1 0, Brelse 1 1 1]
                  (binit 3 2 0 (boot blank)))) (Buf 0)) = 1 \<and>
   blockno (mem (the (run 3 2 [Bread 1 0 0 1 0, Bread 1 0 0 1 1, Brelse 1 1 0, Brelse 1 1 1]
                  (binit 3 2 0 (boot blank)))) (Buf 0)) = 0 \<and>
   dev (mem (the (run 3 2 [Bread 1 0 0 1 0, Bread 1 0 0 1 1, Brelse 1 1 0, Brelse 1 1 1]
                  (binit 3 2 0 (boot blank)))) (Buf 1)) = 1 \<and>
   blockno (mem (the (run 3 2 [Bread 1 0 0 1 0, Bread 1 0 0 1 1, Brelse 1 1 0, Brelse 1 1 1]
                  (binit 3 2 0 (boot blank)))) (Buf 1)) = 1 \<and>
   lookup (the (run 3 2 [Bread 1 0 0 1 0, Bread 1 0 0 1 1, Brelse 1 1 0, Brelse 1 1 1]
                  (binit 3 2 0 (boot blank)))) 1 2 = Some None \<and>
   buf_of (bget 2 1 0 0 1 2
     (the (run 3 2 [Bread 1 0 0 1 0, Bread 1 0 0 1 1, Brelse 1 1 0, Brelse 1 1 1]
             (binit 3 2 0 (boot blank))))) = Some (Buf 2) \<and>
   buf_of (bread 2 1 0 0 1 2
     (the (run 3 2 [Bread 1 0 0 1 0, Bread 1 0 0 1 1, Brelse 1 1 0, Brelse 1 1 1]
             (binit 3 2 0 (boot blank))))) = Some (Buf 2) \<and>
   buf_of (bread 2 1 0 0 1 2
     (the (run 3 2 [Bread 1 0 0 1 0, Bread 1 0 0 1 1, Brelse 1 1 0, Brelse 1 1 1]
             (binit 3 2 0 (boot blank))))) \<noteq> Some (Buf 0) \<and>
   members (mem (the (state_of (bread 2 1 0 0 1 2
     (the (run 3 2 [Bread 1 0 0 1 0, Bread 1 0 0 1 1, Brelse 1 1 0, Brelse 1 1 1]
             (binit 3 2 0 (boot blank)))))))) (Freelist 1) = Some [Buf 1, Buf 0]"
proof -
  define S where "S = the (run 3 2 [Bread 1 0 0 1 0, Bread 1 0 0 1 1, Brelse 1 1 0, Brelse 1 1 1]
                  (binit 3 2 0 (boot blank)))"
  have "\<not> Option.is_none (run 3 2 [Bread 1 0 0 1 0, Bread 1 0 0 1 1, Brelse 1 1 0, Brelse 1 1 1]
                  (binit 3 2 0 (boot blank)))"
    by code_simp
  then have "run 3 2 [Bread 1 0 0 1 0, Bread 1 0 0 1 1, Brelse 1 1 0, Brelse 1 1 1]
                  (binit 3 2 0 (boot blank)) = Some S"
    unfolding S_def by (rule run_the)
  from run_booted [OF booted.boot this] have bS: "booted 3 2 S" by simp
  have 1: "members (mem S) (Freelist 1) = Some [Buf 1, Buf 0]" unfolding S_def by code_simp
  have 2: "members (mem S) (Freelist 0) = Some [Buf 2]" unfolding S_def by code_simp
  have 3: "dev (mem S (Buf 0)) = 1" "blockno (mem S (Buf 0)) = 0"
    "dev (mem S (Buf 1)) = 1" "blockno (mem S (Buf 1)) = 1"
    unfolding S_def by code_simp+
  have 4: "lookup S 1 2 = Some None" unfolding S_def by code_simp
  have 5: "buf_of (bget 2 1 0 0 1 2 S) = Some (Buf 2)" unfolding S_def by code_simp
  have 6: "buf_of (bread 2 1 0 0 1 2 S) = Some (Buf 2)" unfolding S_def by code_simp
  have 7: "buf_of (bread 2 1 0 0 1 2 S) \<noteq> Some (Buf 0)" unfolding 6 by simp
  have 8: "members (mem (the (state_of (bread 2 1 0 0 1 2 S)))) (Freelist 1) = Some [Buf 1, Buf 0]"
    unfolding S_def by code_simp
  from bS 1 2 3 4 5 6 7 8 show ?thesis unfolding S_def [symmetric] by (intro conjI)
qed

end
